theory Spec2Isabelle
  imports Main "HOL-Library.Product_Lexorder"
begin

section \<open>The dynamic PGM-index of \<^verbatim>\<open>pgm_index_dynamic.hpp\<close>\<close>

text \<open>
  The container keeps one sorted array per level. Level \<open>min_level\<close> is the insertion
  buffer; a full buffer is merged with the levels below it into the first level that has
  room. Keys \<open>K\<close> are unsigned integers and are only compared, so they are natural
  numbers here. Sizes are \<open>size_t\<close> in the source; the model counts in \<open>nat\<close>: no
  size reaches \<open>2^64\<close> in a run that fits in memory, and the level numbers (an
  \<open>uint8_t\<close> in the source) stay far below 256 for the same reason.
\<close>

subsection \<open>Constants\<close>

definition min_level :: nat where
  "min_level = 6"

definition init_levels :: nat where
  "init_levels = 15"

definition max_fully_allocated_level :: nat where
  "max_fully_allocated_level = max 15 (min_level + 1)"

subsection \<open>Items\<close>

text \<open>
  \<open>Item\<close> derives from \<open>BaseItem\<close>, which is \<open>BaseItemA\<close> when the value type is a
  pointer and \<open>BaseItemB\<close> otherwise. \<open>BaseItemA\<close> has no flag: an item is deleted when
  its value is the static pointer \<open>tombstone\<close>. \<open>BaseItemB\<close> carries a flag; the
  constructor \<open>Item(key)\<close> leaves its \<open>second\<close> unassigned, which is \<open>None\<close> here.
\<close>

record 'b Item =
  first :: nat
  base :: 'b

record 'v BaseItemA =
  second :: 'v

record 'v BaseItemB =
  second :: "'v option"
  flag :: bool

text \<open>
  The template parameters of \<open>DynamicPGMIndex\<close>, and what the choice of \<open>BaseItem\<close>
  fixes: how an item is built from a key and a value (\<open>Item(key, value)\<close>), how the
  deleted item of a key is built (\<open>Item(key)\<close>), and \<open>BaseItem::deleted()\<close>.
  \<open>PGMType\<close> is declared in \<^verbatim>\<open>pgm_index.hpp\<close>, which is not part of the sources at
  hand: \<open>search c xs k\<close> stands for \<open>PGMType(xs.begin(), xs.end()).search(k)\<close> and
  returns the pair \<open>(lo, hi)\<close>.
\<close>

record ('v, 'b) params =
  make_item :: "nat \<Rightarrow> 'v \<Rightarrow> 'b Item"
  make_deleted :: "nat \<Rightarrow> 'b Item"
  base_deleted :: "'b \<Rightarrow> bool"
  MinIndexedLevel :: nat
  search :: "'b Item list \<Rightarrow> nat \<Rightarrow> nat \<times> nat"

definition deleted :: "('v, 'b) params \<Rightarrow> 'b Item \<Rightarrow> bool" where
  "deleted c e = base_deleted c (base e)"


definition flagged_values ::
  "nat \<Rightarrow> ('v BaseItemB Item list \<Rightarrow> nat \<Rightarrow> nat \<times> nat) \<Rightarrow> ('v, 'v BaseItemB) params" where
  "flagged_values mil srch =
     \<lparr> make_item = (\<lambda>k v. \<lparr> first = k, base = \<lparr> BaseItemB.second = Some v, flag = False \<rparr> \<rparr>),
       make_deleted = (\<lambda>k. \<lparr> first = k, base = \<lparr> BaseItemB.second = None, flag = True \<rparr> \<rparr>),
       base_deleted = flag,
       MinIndexedLevel = mil,
       search = srch \<rparr>"

subsection \<open>The container\<close>

text \<open>
  \<open>data\<close> is the vector of levels, level \<open>l\<close> at index \<open>l - min_level\<close>. The vector
  \<open>pgm\<close> of the source holds, for every nonempty level from \<open>MinIndexedLevel\<close> on, the
  index built from that level's array when it was written; a level's array changes only
  together with its index, so the model keeps no copy and rebuilds the index from the array
  where the source reads \<open>get_pgm(i)\<close>.
\<close>

record 'b index =
  used_levels :: nat
  data :: "'b Item list list"

datatype error = Assertion_failed | Out_of_range

definition get_level :: "'b index \<Rightarrow> nat \<Rightarrow> 'b Item list" where
  "get_level S l = data S ! (l - min_level)"

definition set_level :: "'b index \<Rightarrow> nat \<Rightarrow> 'b Item list \<Rightarrow> 'b index" where
  "set_level S l xs = S\<lparr> data := (data S)[l - min_level := xs] \<rparr>"

text \<open>
  \<open>std::lower_bound\<close> and \<open>std::upper_bound\<close> return the partition point of a range
  that is partitioned by the comparison with the key, as a sorted level is. The model finds
  it by a scan from the left and returns it as a position.
\<close>

definition std_lower_bound :: "'b Item list \<Rightarrow> nat \<Rightarrow> nat" where
  "std_lower_bound xs k = length (takeWhile (\<lambda>e. first e < k) xs)"

definition std_upper_bound :: "'b Item list \<Rightarrow> nat \<Rightarrow> nat" where
  "std_upper_bound xs k = length (takeWhile (\<lambda>e. \<not> k < first e) xs)"

subsection \<open>Merging two sorted runs\<close>

fun merge :: "('v, 'b) params \<Rightarrow> bool \<Rightarrow> 'b Item list \<Rightarrow> 'b Item list \<Rightarrow> 'b Item list" where
  "merge c SkipDeleted (x # xs) (y # ys) =
     (if first y < first x then y # merge c SkipDeleted (x # xs) ys
      else if first x < first y then x # merge c SkipDeleted xs (y # ys)
      else if SkipDeleted \<and> deleted c x then merge c SkipDeleted xs ys
      else x # merge c SkipDeleted xs ys)"
| "merge c SkipDeleted [] ys = ys"
| "merge c SkipDeleted xs [] = xs"

subsection \<open>Scratch buffers\<close>

text \<open>
  \<open>LevelType tmp(n)\<close> allocates \<open>n\<close> default-initialised items: the allocator's
  \<open>construct\<close> leaves the storage as it finds it. \<open>junk\<close> gives what each slot holds.
  \<open>store out buf\<close> writes \<open>out\<close> from the start of \<open>buf\<close>; writing past the end of the
  buffer is an error. \<open>resize\<close> is \<open>std::vector::resize\<close>.
\<close>

definition fresh :: "(nat \<Rightarrow> 'a) \<Rightarrow> nat \<Rightarrow> nat \<Rightarrow> 'a list" where
  "fresh junk off n = map junk [off..<off + n]"

definition store :: "'a list \<Rightarrow> 'a list \<Rightarrow> error + 'a list" where
  "store out buf =
     (if length out \<le> length buf then Inr (out @ drop (length out) buf) else Inl Out_of_range)"

definition resize :: "(nat \<Rightarrow> 'a) \<Rightarrow> nat \<Rightarrow> 'a list \<Rightarrow> 'a list" where
  "resize junk n xs = take n xs @ map junk [length xs..<n]"

subsection \<open>The merge cascade\<close>

text \<open>
  The loop of \<open>pairwise_logarithmic_merge\<close> over the levels \<open>i \<le> limit\<close>. It carries
  the two scratch buffers and \<open>actual_size\<close>, and clears each level it has merged.
  \<open>can_delete_permanently\<close> is \<open>i == used_levels - 1\<close>; \<open>md\<close> is the
  source's \<open>mod\<close>.
\<close>

function merge_levels ::
  "('v, 'b) params \<Rightarrow> 'b index \<Rightarrow> nat \<Rightarrow> nat \<Rightarrow> nat \<Rightarrow> 'b Item list \<Rightarrow> 'b Item list \<Rightarrow> nat
     \<Rightarrow> error + ('b index \<times> 'b Item list \<times> 'b Item list \<times> nat)" where
  "merge_levels c S md limit i tmp_a tmp_b actual_size =
     (if i \<le> limit then
        let alternate = ((i - min_level) mod 2 = md);
            level_data = get_level S i;
            tmp_it = (if alternate then tmp_a else tmp_b);
            can_delete_permanently = (i + 1 = used_levels S);
            out = merge c can_delete_permanently (take actual_size tmp_it) level_data
        in case store out (if alternate then tmp_b else tmp_a) of
             Inl e \<Rightarrow> Inl e
           | Inr dst \<Rightarrow>
               merge_levels c (set_level S i []) md limit (i + 1)
                 (if alternate then tmp_a else dst) (if alternate then dst else tmp_b) (length out)
      else Inr (S, tmp_a, tmp_b, actual_size))"
  by pat_completeness auto
termination
  by (relation "measure (\<lambda>(c, S, md, limit, i, tmp_a, tmp_b, actual_size). Suc limit - i)") auto

definition pairwise_logarithmic_merge ::
  "('v, 'b) params \<Rightarrow> (nat \<Rightarrow> 'b Item) \<Rightarrow> 'b index \<Rightarrow> 'b Item \<Rightarrow> nat \<Rightarrow> nat \<Rightarrow> nat
     \<Rightarrow> error + 'b index" where
  "pairwise_logarithmic_merge c junk S new_item up_to_level size_hint insertion_point =
     (let target_level = up_to_level + 1 in
      if length (data S) \<le> target_level - min_level then Inl Out_of_range
      else
        let target_level_data = get_level S target_level;
            actual_size = 2 ^ (1 + min_level)
        in
        if 2 ^ target_level - length target_level_data < actual_size then Inl Assertion_failed
        else
          let tmp_a = fresh junk 0 size_hint;
              tmp_b = fresh junk size_hint (size_hint + length target_level_data);
              md = (up_to_level - min_level) mod 2;
              level0 = data S ! 0;
              moved = take insertion_point level0 @ new_item # drop insertion_point level0
          in
          case store moved (if md \<noteq> 0 then tmp_a else tmp_b) of
            Inl e \<Rightarrow> Inl e
          | Inr t \<Rightarrow>
              let limit = (if target_level_data = [] then up_to_level else up_to_level + 1)
              in
              (case merge_levels c S md limit (1 + min_level)
                      (if md \<noteq> 0 then t else tmp_a) (if md \<noteq> 0 then tmp_b else t) actual_size of
                 Inl e \<Rightarrow> Inl e
               | Inr (S', tmp_a', tmp_b', actual_size') \<Rightarrow>
                   Inr (set_level (set_level S' min_level []) target_level
                          (resize junk actual_size' tmp_b'))))"

subsection \<open>Insertion\<close>

text \<open>
  The loop of \<open>insert\<close> that looks for the first level with \<open>slots_required\<close> free
  slots. It returns the level it stops at and the slots counted so far.
\<close>

function find_target :: "'b index \<Rightarrow> nat \<Rightarrow> nat \<Rightarrow> nat \<times> nat" where
  "find_target S i slots_required =
     (if i < used_levels S then
        let slots_left_in_level = 2 ^ i - length (get_level S i)
        in if slots_required \<le> slots_left_in_level then (i, slots_required)
           else find_target S (i + 1) (slots_required + length (get_level S i))
      else (i, slots_required))"
  by pat_completeness auto
termination
  by (relation "measure (\<lambda>(S, i, slots_required). used_levels S - i)") auto

definition insert_item ::
  "('v, 'b) params \<Rightarrow> (nat \<Rightarrow> 'b Item) \<Rightarrow> 'b index \<Rightarrow> 'b Item \<Rightarrow> error + 'b index" where
  "insert_item c junk S new_item =
     (if data S = [] then Inl Out_of_range
      else
        let level0 = data S ! 0;
            insertion_point = std_lower_bound level0 (first new_item)
        in
        if insertion_point < length level0 \<and> first (level0 ! insertion_point) = first new_item
        then Inr (S\<lparr> data := (data S)[0 := level0[insertion_point := new_item]] \<rparr>)
        else
          let first_level_max_size = 2 ^ (min_level + 1) - 1 in
          if length level0 < first_level_max_size
          then Inr (S\<lparr> data := (data S)[0 := take insertion_point level0 @ new_item
                                               # drop insertion_point level0],
                       used_levels := (if used_levels S = min_level then min_level + 1
                                       else used_levels S) \<rparr>)
          else
            let (i, slots_required) = find_target S (min_level + 1) (first_level_max_size + 1);
                need_new_level = (i = used_levels S);
                S' = (if need_new_level
                      then S\<lparr> used_levels := used_levels S + 1, data := data S @ [[]] \<rparr>
                      else S)
            in pairwise_logarithmic_merge c junk S' new_item (i - 1) slots_required
                 insertion_point)"

definition insert_kv ::
  "('v, 'b) params \<Rightarrow> (nat \<Rightarrow> 'b Item) \<Rightarrow> 'b index \<Rightarrow> nat \<Rightarrow> 'v \<Rightarrow> error + 'b index" where
  "insert_kv c junk S key v = insert_item c junk S (make_item c key v)"

definition erase :: "('v, 'b) params \<Rightarrow> (nat \<Rightarrow> 'b Item) \<Rightarrow> 'b index \<Rightarrow> nat \<Rightarrow> error + 'b index" where
  "erase c junk S key = insert_item c junk S (make_deleted c key)"

subsection \<open>Construction\<close>

text \<open>
  The default constructor. Its calls of \<open>reserve\<close> change the capacity of the levels and
  not their contents, and capacity is not part of the model.
\<close>

definition empty_index :: "'b index" where
  "empty_index = \<lparr> used_levels = min_level, data = replicate (init_levels - min_level) [] \<rparr>"

subsection \<open>Point lookup\<close>

text \<open>
  One pass of a loop of \<open>find\<close> over a level: \<open>None\<close> when the loop goes on to the next
  level, \<open>Some None\<close> when \<open>find\<close> returns \<open>end()\<close>, \<open>Some (Some e)\<close> when it returns an
  iterator at the item \<open>e\<close>. \<open>indexed\<close> tells the second loop, which asks the index of
  the level for a range, from the first.
\<close>

definition bounded_lower_bound :: "'b Item list \<Rightarrow> nat \<Rightarrow> nat \<Rightarrow> nat \<Rightarrow> nat" where
  "bounded_lower_bound xs lo hi k = lo + std_lower_bound (take (hi - lo) (drop lo xs)) k"

definition find_in_level ::
  "('v, 'b) params \<Rightarrow> bool \<Rightarrow> 'b Item list \<Rightarrow> nat \<Rightarrow> 'b Item option option" where
  "find_in_level c indexed level key =
     (if level = [] then None
      else
        let it = (if indexed
                  then (let (lo, hi) = search c level key in bounded_lower_bound level lo hi key)
                  else std_lower_bound level key)
        in if it < length level \<and> first (level ! it) = key
           then Some (if deleted c (level ! it) then None else Some (level ! it))
           else None)"

fun find_loop ::
  "('v, 'b) params \<Rightarrow> 'b index \<Rightarrow> bool \<Rightarrow> nat \<Rightarrow> nat list \<Rightarrow> 'b Item option option" where
  "find_loop c S indexed key [] = None"
| "find_loop c S indexed key (i # levels) =
     (case find_in_level c indexed (get_level S i) key of
        Some r \<Rightarrow> Some r
      | None \<Rightarrow> find_loop c S indexed key levels)"

definition find_key :: "('v, 'b) params \<Rightarrow> 'b index \<Rightarrow> nat \<Rightarrow> 'b Item option" where
  "find_key c S key =
     (let stop = min (MinIndexedLevel c) (used_levels S) in
      case find_loop c S False key [min_level..<stop] of
        Some r \<Rightarrow> r
      | None \<Rightarrow>
          (case find_loop c S True key [max min_level stop..<used_levels S] of
             Some r \<Rightarrow> r
           | None \<Rightarrow> None))"

subsection \<open>Bulk loading\<close>

text \<open>
  \<open>std::ceil(std::log2(n))\<close> is computed in \<open>double\<close>; it is the least \<open>l\<close> with
  \<open>n \<le> 2^l\<close> for every \<open>n \<ge> 1\<close> that the memory can hold, which \<open>ceil_log2\<close>
  computes. For \<open>n = 0\<close> the source converts minus infinity to \<open>uint8_t\<close> and then
  writes through \<open>first\<close>, the end of the input.
\<close>

function ceil_log2 :: "nat \<Rightarrow> nat" where
  "ceil_log2 n = (if n \<le> 1 then 0 else Suc (ceil_log2 ((n + 1) div 2)))"
  by pat_completeness auto
termination
  by (relation "measure id") auto

text \<open>
  The copy loop of the constructor: a pair is copied when its key differs from the key of
  the item written last (\<open>std::prev(out)\<close>).
\<close>

fun copy_first_of_each ::
  "('v, 'b) params \<Rightarrow> 'b Item \<Rightarrow> (nat \<times> 'v) list \<Rightarrow> 'b Item list" where
  "copy_first_of_each c prev [] = []"
| "copy_first_of_each c prev (p # ps) =
     (if fst p \<noteq> first prev
      then make_item c (fst p) (snd p) # copy_first_of_each c (make_item c (fst p) (snd p)) ps
      else copy_first_of_each c prev ps)"

definition build :: "('v::linorder, 'b) params \<Rightarrow> (nat \<times> 'v) list \<Rightarrow> error + 'b index" where
  "build c pairs =
     (if \<not> sorted pairs then Inl Assertion_failed
      else
        case pairs of
          [] \<Rightarrow> Inl Out_of_range
        | p # ps \<Rightarrow>
            let n = length pairs;
                ul = ceil_log2 n + 1;
                levels = replicate (max ul max_fully_allocated_level - min_level + 1) []
            in
            if ul - 1 < min_level \<or> length levels \<le> ul - 1 - min_level then Inl Out_of_range
            else
              let target = make_item c (fst p) (snd p)
                             # copy_first_of_each c (make_item c (fst p) (snd p)) ps
              in Inr \<lparr> used_levels = ul, data = levels[ul - 1 - min_level := target] \<rparr>)"

subsection \<open>Range lookup\<close>

text \<open>
  The iterator returned by \<open>find\<close> and \<open>lower_bound\<close> is \<open>iterator(this, it)\<close>; what
  the container does with it depends on the item \<open>*it\<close> only, so the model returns that
  item, and \<open>None\<close> for \<open>end()\<close>. In \<open>lower_bound\<close> the pair of \<open>lo\<close> and
  \<open>lo_is_set\<close> is an optional item.
\<close>

definition lower_bound_in_level ::
  "('v, 'b) params \<Rightarrow> bool \<Rightarrow> 'b Item list \<Rightarrow> nat \<Rightarrow> 'b Item option \<Rightarrow> 'b Item option" where
  "lower_bound_in_level c indexed level key lo =
     (if level = [] then lo
      else
        let it0 = (if indexed
                   then (let (l, h) = search c level key in bounded_lower_bound level l h key)
                   else std_lower_bound level key);
            it = it0 + length (takeWhile (deleted c) (drop it0 level))
        in if it < length level \<and> key \<le> first (level ! it)
                \<and> (case lo of None \<Rightarrow> True | Some l \<Rightarrow> first (level ! it) < first l)
           then Some (level ! it)
           else lo)"

fun lower_bound_loop ::
  "('v, 'b) params \<Rightarrow> 'b index \<Rightarrow> bool \<Rightarrow> nat \<Rightarrow> 'b Item option \<Rightarrow> nat list \<Rightarrow> 'b Item option" where
  "lower_bound_loop c S indexed key lo [] = lo"
| "lower_bound_loop c S indexed key lo (i # levels) =
     lower_bound_loop c S indexed key
       (lower_bound_in_level c indexed (get_level S i) key lo) levels"

definition lower_bound :: "('v, 'b) params \<Rightarrow> 'b index \<Rightarrow> nat \<Rightarrow> 'b Item option" where
  "lower_bound c S key =
     (let stop = min (MinIndexedLevel c) (used_levels S);
          lo = lower_bound_loop c S False key None [min_level..<stop]
      in lower_bound_loop c S True key lo [max min_level stop..<used_levels S])"

definition begin_it :: "('v, 'b) params \<Rightarrow> 'b index \<Rightarrow> 'b Item option" where
  "begin_it c S = lower_bound c S 0"

subsection \<open>The forward iterator\<close>

text \<open>
  \<open>it\<close> is the item the iterator stands at (\<open>None\<close> at \<open>end()\<close>). A pair in the queue
  is a position in a level and the number of the level; the position is kept as the rest of
  the level from there on, so \<open>*level_it\<close> is its head and \<open>std::next(level_it)\<close> its
  tail. The priority queue is the list of its pairs; \<open>queue_top\<close> picks the one that
  \<open>queue_cmp\<close> puts first.
\<close>

record 'b iterator =
  it :: "'b Item option"
  initialized :: bool
  queue :: "('b Item list \<times> nat) list"

definition iterator_at :: "'b Item option \<Rightarrow> 'b iterator" where
  "iterator_at x = \<lparr> it = x, initialized = False, queue = [] \<rparr>"

definition queue_cmp :: "'b Item list \<times> nat \<Rightarrow> 'b Item list \<times> nat \<Rightarrow> bool" where
  "queue_cmp e1 e2 =
     (first (hd (fst e1)) > first (hd (fst e2))
      \<or> (first (hd (fst e1)) = first (hd (fst e2)) \<and> snd e1 > snd e2))"

fun queue_top :: "('b Item list \<times> nat) list \<Rightarrow> 'b Item list \<times> nat" where
  "queue_top [e] = e"
| "queue_top (e # q) = (let t = queue_top q in if queue_cmp t e then e else t)"
| "queue_top [] = ([], 0)"

definition lazy_initialize_queue ::
  "('v, 'b) params \<Rightarrow> 'b index \<Rightarrow> 'b Item \<Rightarrow> 'b iterator \<Rightarrow> 'b iterator" where
  "lazy_initialize_queue c S cur iter =
     (if initialized iter then iter
      else
        let initial_pairs =
              concat (map (\<lambda>i.
                let level = get_level S i in
                if level = [] then []
                else
                  let (lo, hi) = (if MinIndexedLevel c \<le> i then search c level (first cur)
                                  else (0, length level));
                      pos = lo + std_upper_bound (take (hi - lo) (drop lo level)) (first cur)
                  in if drop pos level \<noteq> [] then [(drop pos level, i)] else [])
                [min_level..<used_levels S])
        in iter\<lparr> queue := initial_pairs, initialized := True \<rparr>)"

definition queue_step ::
  "('b Item list \<times> nat) list \<Rightarrow> ('b Item list \<times> nat) list \<times> 'b Item" where
  "queue_step q =
     (let (level_it, level_idx) = queue_top q;
          q' = remove1 (level_it, level_idx) q
      in (if tl level_it \<noteq> [] then (tl level_it, level_idx) # q' else q', hd level_it))"

definition queue_size :: "('b Item list \<times> nat) list \<Rightarrow> nat" where
  "queue_size q = sum_list (map (\<lambda>e. Suc (length (fst e))) q)"

text \<open>
  The number of items the queue still holds, plus one for each pair. \<open>queue_step\<close> makes it
  smaller, which is why the loops of \<open>advance\<close> end.
\<close>

lemma queue_top_mem: "q \<noteq> [] \<Longrightarrow> queue_top q \<in> set q"
  by (induction q rule: queue_top.induct) (auto simp: Let_def)

lemma queue_size_remove1:
  "e \<in> set q \<Longrightarrow> queue_size (remove1 e q) + Suc (length (fst e)) = queue_size q"
  by (induction q) (auto simp: queue_size_def)

lemma queue_size_step: "q \<noteq> [] \<Longrightarrow> queue_size (fst (queue_step q)) < queue_size q"
proof -
  assume "q \<noteq> []"
  then have m: "queue_top q \<in> set q" by (rule queue_top_mem)
  obtain level_it level_idx where t: "queue_top q = (level_it, level_idx)"
    by (cases "queue_top q") auto
  have r: "queue_size (remove1 (level_it, level_idx) q) + Suc (length level_it) = queue_size q"
    using queue_size_remove1[OF m] t by simp
  show ?thesis
  proof (cases "tl level_it = []")
    case True
    then show ?thesis using r t by (simp add: queue_step_def)
  next
    case False
    then have "level_it \<noteq> []" by auto
    then have "Suc (length (tl level_it)) = length level_it" by simp
    then have "queue_size ((tl level_it, level_idx) # remove1 (level_it, level_idx) q) < queue_size q"
      using r by (simp add: queue_size_def)
    then show ?thesis using False t by (simp add: queue_step_def)
  qed
qed

text \<open>
  The inner loop of \<open>advance\<close>: \<open>while (!queue.empty() && queue.top().first->key() ==
  tmp_it->key()) queue_step();\<close>
\<close>

function skip_equal :: "nat \<Rightarrow> ('b Item list \<times> nat) list \<Rightarrow> ('b Item list \<times> nat) list" where
  "skip_equal key q =
     (if q \<noteq> [] \<and> first (hd (fst (queue_top q))) = key
      then skip_equal key (fst (queue_step q))
      else q)"
  by pat_completeness auto
termination
  by (relation "measure (\<lambda>(key, q). queue_size q)") (auto simp: queue_size_step)

declare skip_equal.simps [simp del]

lemma queue_size_skip_equal: "queue_size (skip_equal key q) \<le> queue_size q"
proof (induction key q rule: skip_equal.induct)
  case (1 key q)
  show ?case
  proof (cases "q \<noteq> [] \<and> first (hd (fst (queue_top q))) = key")
    case True
    then have "queue_size (skip_equal key (fst (queue_step q))) \<le> queue_size (fst (queue_step q))"
      using "1.IH" by simp
    also have "\<dots> < queue_size q" using True by (simp add: queue_size_step)
    finally show ?thesis using True by (subst skip_equal.simps) simp
  next
    case False
    then show ?thesis by (subst skip_equal.simps) auto
  qed
qed

text \<open>
  The \<open>do ... while (!queue.empty() && tmp_it->deleted())\<close> loop of \<open>advance\<close>. It
  returns the queue it leaves and the last \<open>tmp_it\<close>; \<open>None\<close> is the early exit on an
  empty queue.
\<close>

function advance_loop ::
  "('v, 'b) params \<Rightarrow> ('b Item list \<times> nat) list \<Rightarrow> (('b Item list \<times> nat) list \<times> 'b Item) option" where
  "advance_loop c q =
     (if q = [] then None
      else
        let (q1, tmp_it) = queue_step q;
            q2 = skip_equal (first tmp_it) q1
        in if q2 \<noteq> [] \<and> deleted c tmp_it then advance_loop c q2 else Some (q2, tmp_it))"
  by pat_completeness auto
termination
proof (relation "measure (\<lambda>(c, q). queue_size q)", goal_cases)
  case 1
  show ?case by simp
next
  case (2 c q x xa y xb)
  have "queue_size (skip_equal (first y) xa) \<le> queue_size xa" by (rule queue_size_skip_equal)
  moreover have "queue_size (fst (queue_step q)) < queue_size q" using 2(1) by (rule queue_size_step)
  ultimately show ?case using 2 by (simp add: case_prod_beta) (metis fst_conv le_less_trans)
qed

declare advance_loop.simps [simp del]

text \<open>
  \<open>advance\<close>: on an empty queue, and when the last item taken is deleted, the iterator
  becomes \<open>end()\<close>, a fresh iterator with an empty queue.
\<close>

definition advance :: "('v, 'b) params \<Rightarrow> 'b iterator \<Rightarrow> 'b iterator" where
  "advance c iter =
     (case advance_loop c (queue iter) of
        None \<Rightarrow> iterator_at None
      | Some (q, tmp_it) \<Rightarrow>
          if deleted c tmp_it then iterator_at None
          else iter\<lparr> it := Some tmp_it, queue := q \<rparr>)"

text \<open>
  A bound on the steps an iterator has left: the items of its queue or, before the queue is
  built, the items of all levels.
\<close>

definition level_total :: "'b index \<Rightarrow> nat" where
  "level_total S = (\<Sum>l\<leftarrow>[min_level..<used_levels S]. Suc (length (get_level S l)))"

definition iterator_size :: "'b index \<Rightarrow> 'b iterator \<Rightarrow> nat" where
  "iterator_size S iter =
     (case it iter of
        None \<Rightarrow> 0
      | Some here \<Rightarrow> if initialized iter then Suc (queue_size (queue iter))
                    else Suc (Suc (level_total S)))"

lemma queue_size_advance_loop:
  "advance_loop c q = Some (q', tmp_it) \<Longrightarrow> queue_size q' < queue_size q"
proof (induction c q rule: advance_loop.induct)
  case (1 c q)
  have ne: "q \<noteq> []" using "1.prems" by (subst (asm) advance_loop.simps) (auto split: if_splits)
  obtain q1 t where st: "queue_step q = (q1, t)" by (cases "queue_step q") auto
  let ?q2 = "skip_equal (first t) q1"
  have lt: "queue_size ?q2 < queue_size q"
    using queue_size_skip_equal[of "first t" q1] queue_size_step[OF ne] st
    by simp
  show ?case
  proof (cases "?q2 \<noteq> [] \<and> deleted c t")
    case True
    then have "advance_loop c ?q2 = Some (q', tmp_it)"
      using "1.prems" ne st by (subst (asm) advance_loop.simps) simp
    then have "queue_size q' < queue_size ?q2"
      using "1.IH"[OF ne st[symmetric] refl] True by simp
    then show ?thesis using lt by simp
  next
    case False
    then have "q' = ?q2"
      using "1.prems" ne st by (subst (asm) advance_loop.simps) auto
    then show ?thesis using lt by simp
  qed
qed

lemma queue_size_concat:
  "(\<And>i. queue_size (f i) \<le> g i) \<Longrightarrow> queue_size (concat (map f ls)) \<le> (\<Sum>l\<leftarrow>ls. g l)"
proof (induction ls)
  case Nil
  then show ?case by (simp add: queue_size_def)
next
  case (Cons l ls)
  have "queue_size (f l @ concat (map f ls)) = queue_size (f l) + queue_size (concat (map f ls))"
    by (simp add: queue_size_def)
  then show ?case using Cons.IH[OF Cons.prems] Cons.prems[of l] by simp
qed

lemma queue_size_lazy_initialize:
  "\<not> initialized iter \<Longrightarrow> queue_size (queue (lazy_initialize_queue c S here iter)) \<le> level_total S"
  unfolding level_total_def
  by (simp add: lazy_initialize_queue_def Let_def)
     (rule queue_size_concat, auto simp: queue_size_def Let_def split: prod.splits)

lemma initialized_lazy_initialize [simp]: "initialized (lazy_initialize_queue c S here iter)"
  by (simp add: lazy_initialize_queue_def Let_def)

lemma lazy_initialize_initialized: "initialized iter \<Longrightarrow> lazy_initialize_queue c S here iter = iter"
  by (simp add: lazy_initialize_queue_def)

lemma iterator_size_advance:
  assumes "it iter = Some here"
  shows "iterator_size S (advance c (lazy_initialize_queue c S here iter)) < iterator_size S iter"
proof -
  let ?i1 = "lazy_initialize_queue c S here iter"
  have b: "Suc (queue_size (queue ?i1)) \<le> iterator_size S iter"
  proof (cases "initialized iter")
    case True
    then show ?thesis using assms by (simp add: lazy_initialize_initialized iterator_size_def)
  next
    case False
    then show ?thesis
      using assms queue_size_lazy_initialize[OF False, of c S here]
      by (simp add: iterator_size_def)
  qed
  show ?thesis
  proof (cases "advance_loop c (queue ?i1)")
    case None
    then show ?thesis using assms b by (simp add: advance_def iterator_at_def iterator_size_def)
  next
    case (Some r)
    obtain q t where r: "r = (q, t)" by (cases r) auto
    have lt: "queue_size q < queue_size (queue ?i1)"
      using Some r queue_size_advance_loop by metis
    show ?thesis
    proof (cases "deleted c t")
      case True
      then show ?thesis using Some r assms b by (simp add: advance_def iterator_at_def iterator_size_def)
    next
      case False
      then have "advance c ?i1 = ?i1\<lparr> it := Some t, queue := q \<rparr>"
        using Some r by (simp add: advance_def)
      then have "iterator_size S (advance c ?i1) = Suc (queue_size q)"
        by (simp add: iterator_size_def)
      then show ?thesis using lt b by simp
    qed
  qed
qed

text \<open>
  \<open>for (it = begin(); it != end(); ++it)\<close>, collecting \<open>*it\<close>; \<open>operator++\<close> is
  \<open>lazy_initialize_queue\<close> followed by \<open>advance\<close>.
\<close>

function traverse_from :: "('v, 'b) params \<Rightarrow> 'b index \<Rightarrow> 'b iterator \<Rightarrow> 'b Item list" where
  "traverse_from c S iter =
     (case it iter of
        None \<Rightarrow> []
      | Some here \<Rightarrow> here # traverse_from c S (advance c (lazy_initialize_queue c S here iter)))"
  by pat_completeness auto
termination
  by (relation "measure (\<lambda>(c, S, iter). iterator_size S iter)") (auto simp: iterator_size_advance)

declare traverse_from.simps [simp del]

definition traverse :: "('v, 'b) params \<Rightarrow> 'b index \<Rightarrow> 'b Item list" where
  "traverse c S = traverse_from c S (iterator_at (begin_it c S))"

subsection \<open>An instance for the examples\<close>

text \<open>
  Values are natural numbers, the container uses \<open>BaseItemB\<close>, \<open>MinIndexedLevel\<close> is
  the default 18 and the index of a level answers every search with the whole level.
\<close>

definition example_params :: "(nat, nat BaseItemB) params" where
  "example_params = flagged_values 18 (\<lambda>xs k. (0, length xs))"

definition example_junk :: "nat \<Rightarrow> nat BaseItemB Item" where
  "example_junk i = make_item example_params 200 0"

section \<open>Properties\<close>

declare merge_levels.simps [simp del] find_target.simps [simp del] ceil_log2.simps [simp del]

subsection \<open>Sorted levels\<close>

definition strictly_sorted :: "'b Item list \<Rightarrow> bool" where
  "strictly_sorted xs = sorted_wrt (<) (map first xs)"

lemma strictly_sorted_Nil [simp]: "strictly_sorted []"
  by (simp add: strictly_sorted_def)

lemma strictly_sorted_Cons [simp]:
  "strictly_sorted (x # xs) \<longleftrightarrow> (\<forall>y\<in>set xs. first x < first y) \<and> strictly_sorted xs"
  by (auto simp: strictly_sorted_def)

lemma strictly_sorted_append:
  "strictly_sorted (xs @ ys) \<longleftrightarrow>
     strictly_sorted xs \<and> strictly_sorted ys \<and> (\<forall>x\<in>set xs. \<forall>y\<in>set ys. first x < first y)"
  by (auto simp: strictly_sorted_def sorted_wrt_append)

lemma std_lower_bound_le: "std_lower_bound xs k \<le> length xs"
  by (simp add: std_lower_bound_def length_takeWhile_le)

lemma std_lower_bound_sorted_nth:
  "strictly_sorted xs \<Longrightarrow> p < length xs \<Longrightarrow> first (xs ! p) = k \<Longrightarrow> std_lower_bound xs k = p"
proof (induction xs arbitrary: p)
  case Nil
  then show ?case by simp
next
  case (Cons x xs)
  show ?case
  proof (cases p)
    case 0
    then show ?thesis using Cons.prems by (simp add: std_lower_bound_def)
  next
    case (Suc q)
    then have q: "q < length xs" "first (xs ! q) = k" using Cons.prems by simp_all
    then have "first x < k" using Cons.prems(1) nth_mem[of q xs] by auto
    moreover have "std_lower_bound xs k = q" using Cons.IH Cons.prems(1) q by simp
    ultimately show ?thesis using Suc by (simp add: std_lower_bound_def)
  qed
qed

subsection \<open>The merge of two runs\<close>

lemma length_merge: "length (merge c s xs ys) \<le> length xs + length ys"
  by (induction c s xs ys rule: merge.induct) auto


lemma set_merge:
  "strictly_sorted xs \<Longrightarrow> strictly_sorted ys \<Longrightarrow>
   set (merge c s xs ys) =
     {x \<in> set xs. \<not> (s \<and> deleted c x \<and> first x \<in> first ` set ys)}
       \<union> {y \<in> set ys. first y \<notin> first ` set xs}"
proof (induction c s xs ys rule: merge.induct)
  case (1 c s x xs y ys)
  then show ?case by (auto simp: image_iff)
next
  case (2 c s ys)
  then show ?case by auto
next
  case (3 c s xs)
  then show ?case by auto
qed


lemma find_first_Some: "find (\<lambda>e. first e = k) xs = Some e \<Longrightarrow> e \<in> set xs \<and> first e = k"
  by (induction xs) (auto split: if_splits)



text \<open>
  C2, as the code has it. The claim says that the merge with \<open>SkipDeleted\<close> drops every
  deleted item that takes part in it. It drops a deleted item of the incoming run only when
  the level holds an item with the same key, and it never drops a deleted item of the
  level for being deleted: the run \<open>[deleted 5]\<close> merged with the level \<open>[7]\<close> keeps
  the deleted item.
\<close>

theorem merge_skip_deleted_keeps_unmatched_counterexample:
  "merge example_params True [make_deleted example_params 5] [make_item example_params 7 1]
     = [make_deleted example_params 5, make_item example_params 7 1]
   \<and> deleted example_params (make_deleted example_params 5)"
  by (simp add: example_params_def flagged_values_def deleted_def)

text \<open>
  C2, amended. Both inputs are sorted by key without repetition. Without \<open>SkipDeleted\<close>
  the output holds every item of the incoming run, deleted or not, and the items of the
  level whose key the run does not have. With \<open>SkipDeleted\<close> it holds the items of the
  run but the deleted ones whose key the level has too, and again the items of the level
  whose key the run does not have.
\<close>

theorem merge_drops_only_matched_deleted:
  assumes "strictly_sorted xs" and "strictly_sorted ys"
  shows "set (merge c False xs ys) = set xs \<union> {y \<in> set ys. first y \<notin> first ` set xs}
       \<and> set (merge c True xs ys) =
           {x \<in> set xs. \<not> (deleted c x \<and> first x \<in> first ` set ys)}
             \<union> {y \<in> set ys. first y \<notin> first ` set xs}"
  using set_merge[OF assms, of c False] set_merge[OF assms, of c True] by simp

theorem merge_drops_only_matched_deleted_witness:
  "strictly_sorted [make_deleted example_params 5, make_deleted example_params 6]
   \<and> strictly_sorted [make_item example_params 6 1, make_item example_params 7 1]
   \<and> set (merge example_params True
             [make_deleted example_params 5, make_deleted example_params 6]
             [make_item example_params 6 1, make_item example_params 7 1])
       = {make_deleted example_params 5, make_item example_params 7 1}
   \<and> set (merge example_params False
             [make_deleted example_params 5, make_deleted example_params 6]
             [make_item example_params 6 1, make_item example_params 7 1])
       = {make_deleted example_params 5, make_deleted example_params 6,
          make_item example_params 7 1}"
proof -
  have a: "strictly_sorted [make_deleted example_params 5, make_deleted example_params 6]"
    by (simp add: example_params_def flagged_values_def)
  have b: "strictly_sorted [make_item example_params 6 1, make_item example_params 7 1]"
    by (simp add: example_params_def flagged_values_def)
  show ?thesis
    using a b merge_drops_only_matched_deleted[OF a b, of example_params]
    by (simp add: example_params_def flagged_values_def deleted_def)
qed

subsection \<open>Insertion of a key the buffer holds\<close>

text \<open>
  C9. When the buffer (level \<open>min_level\<close>) is sorted and holds the key at position \<open>p\<close>,
  \<open>insert(key, value)\<close> returns the container it was given with the item at position
  \<open>p\<close> of the buffer replaced: \<open>used_levels\<close>, the other items of the buffer and every
  other level are as before, and no merge runs.
\<close>

theorem insert_existing_key_in_place:
  assumes "data S \<noteq> []"
    and "strictly_sorted (get_level S min_level)"
    and "p < length (get_level S min_level)"
    and "first (get_level S min_level ! p) = k"
    and "first (make_item c k v) = k"
  shows "insert_kv c junk S k v
           = Inr (set_level S min_level ((get_level S min_level)[p := make_item c k v]))"
proof -
  have lvl: "get_level S min_level = data S ! 0"
    by (simp add: get_level_def)
  have "std_lower_bound (data S ! 0) k = p"
    using assms(2,3,4) lvl std_lower_bound_sorted_nth by metis
  then show ?thesis
    using assms lvl by (simp add: insert_kv_def insert_item_def set_level_def Let_def)
qed

theorem insert_existing_key_in_place_witness:
  "insert_kv example_params example_junk
     \<lparr> used_levels = 8,
       data = [[make_item example_params 3 1, make_item example_params 5 1],
               [make_item example_params 5 0]] \<rparr> 5 2
   = Inr \<lparr> used_levels = 8,
           data = [[make_item example_params 3 1, make_item example_params 5 2],
                   [make_item example_params 5 0]] \<rparr>"
  using insert_existing_key_in_place[of
     "\<lparr> used_levels = 8,
        data = [[make_item example_params 3 1, make_item example_params 5 1],
                [make_item example_params 5 0]] \<rparr>" 1 5 example_params 2 example_junk]
  by (simp add: example_params_def flagged_values_def get_level_def set_level_def)

subsection \<open>Bulk loading\<close>

lemma ceil_log2_le: "n \<le> 2 ^ l \<Longrightarrow> ceil_log2 n \<le> l"
proof (induction n arbitrary: l rule: ceil_log2.induct)
  case (1 n)
  show ?case
  proof (cases "n \<le> 1")
    case True
    then show ?thesis by (subst ceil_log2.simps) simp
  next
    case False
    then obtain m where l: "l = Suc m" using "1.prems" by (cases l) auto
    have "(n + 1) div 2 \<le> 2 ^ m" using "1.prems" l by simp
    then have "ceil_log2 ((n + 1) div 2) \<le> m" using "1.IH" False by simp
    then show ?thesis using False l by (subst ceil_log2.simps) simp
  qed
qed

lemma le_ceil_log2: "n \<le> 2 ^ ceil_log2 n"
proof (induction n rule: ceil_log2.induct)
  case (1 n)
  show ?case
  proof (cases "n \<le> 1")
    case True
    then show ?thesis by (subst ceil_log2.simps) simp
  next
    case False
    then have "(n + 1) div 2 \<le> 2 ^ ceil_log2 ((n + 1) div 2)" using "1.IH" by simp
    then have "n \<le> 2 * 2 ^ ceil_log2 ((n + 1) div 2)" by linarith
    then show ?thesis using False by (subst ceil_log2.simps) simp
  qed
qed

lemma ceil_log2_gt: "2 ^ l < n \<Longrightarrow> l < ceil_log2 n"
proof (rule ccontr)
  assume a: "2 ^ l < n" and "\<not> l < ceil_log2 n"
  then have "ceil_log2 n \<le> l" by simp
  then have "(2::nat) ^ ceil_log2 n \<le> 2 ^ l" by (simp add: power_increasing)
  then show False using a le_ceil_log2[of n] by linarith
qed

text \<open>
  C8 at the input of the specification's own example, three pairs with a repeated key:
  \<open>used_levels\<close> becomes 3, and the constructor takes \<open>get_level(2)\<close>, the element
  \<open>2 - min_level\<close> of \<open>data\<close>, which is out of range.
\<close>

theorem build_three_pairs_out_of_range:
  "build c [(1, 10::nat), (1, 11), (2, 12)] = Inl Out_of_range"
proof -
  have "ceil_log2 (length [(1, 10::nat), (1::nat, 11), (2, 12)]) \<le> 5"
    by (rule ceil_log2_le) simp
  then have "ceil_log2 (Suc (Suc (Suc 0))) < 6" by simp
  then show ?thesis
    by (simp add: build_def min_level_def)
qed

subsection \<open>The sizes of the levels\<close>

text \<open>
  \<open>level_sizes S a b\<close> adds the sizes of the levels from \<open>a\<close> up to \<open>b\<close>,
  \<open>b\<close> excluded; the loop of \<open>insert\<close> adds them to \<open>slots_required\<close>.
\<close>

definition level_sizes :: "'b index \<Rightarrow> nat \<Rightarrow> nat \<Rightarrow> nat" where
  "level_sizes S a b = (\<Sum>j = a..<b. length (get_level S j))"

lemma level_sizes_same [simp]: "level_sizes S a a = 0"
  by (simp add: level_sizes_def)

lemma level_sizes_first: "a < b \<Longrightarrow> level_sizes S a b = length (get_level S a) + level_sizes S (Suc a) b"
  by (simp add: level_sizes_def sum.atLeast_Suc_lessThan)

lemma level_sizes_last: "a \<le> b \<Longrightarrow> level_sizes S a (Suc b) = level_sizes S a b + length (get_level S b)"
  by (simp add: level_sizes_def)

lemma find_target_result:
  "find_target S i r = (t, r') \<Longrightarrow> i \<le> used_levels S \<Longrightarrow> 0 < r \<Longrightarrow>
     i \<le> t \<and> t \<le> used_levels S \<and> r' = r + level_sizes S i t
     \<and> (t < used_levels S \<longrightarrow> r' + length (get_level S t) \<le> 2 ^ t)"
proof (induction S i r rule: find_target.induct)
  case (1 S i r)
  show ?case
  proof (cases "i < used_levels S")
    case False
    then show ?thesis using "1.prems" by (simp add: find_target.simps)
  next
    case True
    note lt = this
    show ?thesis
    proof (cases "r \<le> 2 ^ i - length (get_level S i)")
      case True
      then have "t = i" "r' = r" using "1.prems" lt by (simp_all add: find_target.simps)
      moreover have "r + length (get_level S i) \<le> 2 ^ i"
        using True "1.prems" by linarith
      ultimately show ?thesis using lt by simp
    next
      case False
      then have rec: "find_target S (i + 1) (r + length (get_level S i)) = (t, r')"
        using "1.prems" lt by (simp add: find_target.simps)
      have ih: "i + 1 \<le> t \<and> t \<le> used_levels S
            \<and> r' = r + length (get_level S i) + level_sizes S (i + 1) t
            \<and> (t < used_levels S \<longrightarrow> r' + length (get_level S t) \<le> 2 ^ t)"
        using "1.IH"[OF lt refl False rec] lt "1.prems" by auto
      then have "level_sizes S i t = length (get_level S i) + level_sizes S (Suc i) t"
        using level_sizes_first[of i t S] by simp
      then have "r' = r + level_sizes S i t" using ih by auto
      then show ?thesis using ih by auto
    qed
  qed
qed


function merge_chain ::
  "('v, 'b) params \<Rightarrow> 'b index \<Rightarrow> nat \<Rightarrow> nat \<Rightarrow> 'b Item list \<Rightarrow> 'b Item list" where
  "merge_chain c S limit i run =
     (if i \<le> limit
      then merge_chain c S limit (i + 1) (merge c (i + 1 = used_levels S) run (get_level S i))
      else run)"
  by pat_completeness auto
termination
  by (relation "measure (\<lambda>(c, S, limit, i, run). Suc limit - i)") auto

declare merge_chain.simps [simp del]

lemma merge_chain_done: "limit < i \<Longrightarrow> merge_chain c S limit i run = run"
  by (simp add: merge_chain.simps[of c S limit i])


lemma merge_chain_cong:
  "used_levels S1 = used_levels S2 \<Longrightarrow>
   (\<And>j. i \<le> j \<Longrightarrow> j \<le> limit \<Longrightarrow> get_level S1 j = get_level S2 j) \<Longrightarrow>
   merge_chain c S1 limit i run = merge_chain c S2 limit i run"
proof (induction c S1 limit i run rule: merge_chain.induct)
  case (1 c S1 limit i run)
  show ?case
  proof (cases "i \<le> limit")
    case True
    have "merge_chain c S1 limit (i + 1) (merge c (i + 1 = used_levels S1) run (get_level S1 i))
        = merge_chain c S2 limit (i + 1) (merge c (i + 1 = used_levels S1) run (get_level S1 i))"
      using "1.IH"[OF True] "1.prems" by simp
    then show ?thesis
      using True "1.prems"(1) "1.prems"(2)[of i]
      by (simp add: merge_chain.simps[of c S1 limit i] merge_chain.simps[of c S2 limit i])
  next
    case False
    then show ?thesis
      by (simp add: merge_chain.simps[of c S1 limit i] merge_chain.simps[of c S2 limit i])
  qed
qed

lemma length_merge_chain:
  "length (merge_chain c S limit i run) \<le> length run + level_sizes S i (Suc limit)"
proof (induction c S limit i run rule: merge_chain.induct)
  case (1 c S limit i run)
  show ?case
  proof (cases "i \<le> limit")
    case True
    have "length (merge_chain c S limit (i + 1) (merge c (i + 1 = used_levels S) run (get_level S i)))
          \<le> length (merge c (i + 1 = used_levels S) run (get_level S i)) + level_sizes S (i + 1) (Suc limit)"
      using "1.IH"[OF True] .
    moreover have "length (merge c (i + 1 = used_levels S) run (get_level S i)) \<le> length run + length (get_level S i)"
      by (rule length_merge)
    moreover have "level_sizes S i (Suc limit) = length (get_level S i) + level_sizes S (Suc i) (Suc limit)"
      using True by (simp add: level_sizes_first)
    ultimately show ?thesis using True by (simp add: merge_chain.simps[of c S limit i])
  next
    case False
    then show ?thesis by (simp add: merge_chain.simps[of c S limit i])
  qed
qed

definition cur :: "nat \<Rightarrow> nat \<Rightarrow> 'a \<Rightarrow> 'a \<Rightarrow> 'a" where
  "cur md i ta tb = (if (i - min_level) mod 2 = md then ta else tb)"

lemma cur_Suc: "min_level \<le> i \<Longrightarrow> md < 2 \<Longrightarrow> cur md (Suc i) ta tb = cur md i tb ta"
  by (auto simp: cur_def Suc_diff_le mod_Suc)

lemma store_Inr: "store out buf = Inr dst \<Longrightarrow> length dst = length buf \<and> take (length out) dst = out"
  by (auto simp: store_def split: if_splits)


lemma merge_levels_result:
  "merge_levels c S md limit i ta tb n = Inr (S', ta', tb', n') \<Longrightarrow> min_level \<le> i \<Longrightarrow> md < 2 \<Longrightarrow>
     used_levels S' = used_levels S
     \<and> length (data S') = length (data S)
     \<and> (\<forall>j < length (data S). data S' ! j
           = (if i \<le> j + min_level \<and> j + min_level \<le> limit then [] else data S ! j))
     \<and> length ta' = length ta \<and> length tb' = length tb
     \<and> take n' (cur md (max i (Suc limit)) ta' tb') = merge_chain c S limit i (take n (cur md i ta tb))
     \<and> (if i \<le> limit then n' = length (merge_chain c S limit i (take n (cur md i ta tb))) else n' = n)"
proof (induction c S md limit i ta tb n rule: merge_levels.induct)
  case (1 c S md limit i ta tb n)
  show ?case
  proof (cases "i \<le> limit")
    case False
    then have eq: "S' = S" "ta' = ta" "tb' = tb" "n' = n"
      using "1.prems"(1) by (simp_all add: merge_levels.simps[of c S md limit i])
    have m: "max i (Suc limit) = i" using False by simp
    have ch: "\<And>run. merge_chain c S limit i run = run"
      using False by (simp add: merge_chain.simps[of c S limit i])
    show ?thesis
      using False by (auto simp: eq m ch)
  next
    case True
    let ?alt = "(i - min_level) mod 2 = md"
    let ?out = "merge c (i + 1 = used_levels S) (take n (if ?alt then ta else tb)) (get_level S i)"
    let ?S1 = "set_level S i []"
    obtain dst where dst: "store ?out (if ?alt then tb else ta) = Inr dst"
      using "1.prems"(1) True
      by (cases "store ?out (if ?alt then tb else ta)")
         (simp_all add: merge_levels.simps[of c S md limit i] Let_def)
    have rec: "merge_levels c ?S1 md limit (i + 1)
                 (if ?alt then ta else dst) (if ?alt then dst else tb) (length ?out) = Inr (S', ta', tb', n')"
      using "1.prems"(1) True dst
      by (simp add: merge_levels.simps[of c S md limit i] Let_def)
    have mi: "min_level \<le> i + 1" using "1.prems"(2) by simp
    note ih = "1.IH"[OF True refl refl refl refl refl dst rec mi "1.prems"(3)]
    have dstp: "length dst = length (if ?alt then tb else ta)" "take (length ?out) dst = ?out"
      using store_Inr[OF dst] by simp_all
    have flip: "((Suc i - min_level) mod 2 = md) = (\<not> ?alt)"
      using "1.prems"(2,3) by (auto simp: Suc_diff_le mod_Suc)
    have cur1: "cur md (i + 1) (if ?alt then ta else dst) (if ?alt then dst else tb) = dst"
      by (simp add: cur_def flip)
    have cur0: "cur md i ta tb = (if ?alt then ta else tb)"
      by (simp add: cur_def)
    have chain1: "merge_chain c ?S1 limit (i + 1) ?out = merge_chain c S limit (i + 1) ?out"
      using "1.prems"(2)
      by (intro merge_chain_cong) (auto simp: set_level_def get_level_def)
    have unfold: "merge_chain c S limit i (take n (cur md i ta tb)) = merge_chain c S limit (i + 1) ?out"
      using True by (simp add: merge_chain.simps[of c S limit i] cur0)
    have mx: "max (i + 1) (Suc limit) = max i (Suc limit)" using True by simp
    have a1: "used_levels S' = used_levels S"
      using ih by (simp add: set_level_def)
    have a2: "length (data S') = length (data S)"
      using ih by (simp add: set_level_def)
    have a3: "\<forall>j < length (data S). data S' ! j
           = (if i \<le> j + min_level \<and> j + min_level \<le> limit then [] else data S ! j)"
    proof (intro allI impI)
      fix j assume j: "j < length (data S)"
      have "data S' ! j = (if i + 1 \<le> j + min_level \<and> j + min_level \<le> limit then []
                           else data ?S1 ! j)"
        using ih j by (simp add: set_level_def)
      moreover have "data ?S1 ! j = (if j = i - min_level then [] else data S ! j)"
        using j by (simp add: set_level_def nth_list_update)
      ultimately show "data S' ! j = (if i \<le> j + min_level \<and> j + min_level \<le> limit then [] else data S ! j)"
        using "1.prems"(2) True by auto
    qed
    have a4: "length ta' = length ta" "length tb' = length tb"
      using ih dstp(1) by (auto split: if_splits)
    have a5: "take n' (cur md (max i (Suc limit)) ta' tb') = merge_chain c S limit i (take n (cur md i ta tb))"
      using ih by (simp add: cur1 dstp(2) chain1 unfold mx del: One_nat_def)
    have a6: "n' = length (merge_chain c S limit i (take n (cur md i ta tb)))"
    proof (cases "i + 1 \<le> limit")
      case True
      then show ?thesis using ih by (simp add: cur1 dstp(2) chain1 unfold del: One_nat_def)
    next
      case False
      then have "n' = length ?out" using ih by simp
      moreover have "merge_chain c S limit (i + 1) ?out = ?out"
        using False by (simp add: merge_chain_done)
      ultimately show ?thesis by (simp add: unfold)
    qed
    show ?thesis using a1 a2 a3 a4 a5 a6 True by simp
  qed
qed


lemma merge_levels_size:
  assumes "merge_levels c S md limit i ta tb n = Inr (S', ta', tb', n')" and "min_level \<le> i" and "md < 2"
  shows "n' \<le> n + level_sizes S i (Suc limit)"
proof (cases "i \<le> limit")
  case True
  then have "n' = length (merge_chain c S limit i (take n (cur md i ta tb)))"
    using merge_levels_result[OF assms] by simp
  moreover have "length (merge_chain c S limit i (take n (cur md i ta tb)))
                   \<le> length (take n (cur md i ta tb)) + level_sizes S i (Suc limit)"
    by (rule length_merge_chain)
  ultimately show ?thesis by simp
next
  case False
  then have "n' = n" using merge_levels_result[OF assms] by simp
  then show ?thesis by simp
qed

subsection \<open>The invariant of the levels\<close>

text \<open>
  \<open>levels_ok\<close>: \<open>used_levels\<close> is at least \<open>min_level\<close>, \<open>data\<close> has a
  level \<open>used_levels\<close> and at least two levels, no level holds more than its capacity,
  and the levels from \<open>used_levels\<close> on are empty.
\<close>

definition capacity :: "nat \<Rightarrow> nat" where
  "capacity l = (if l = min_level then 2 ^ (min_level + 1) - 1 else 2 ^ l)"

definition levels_ok :: "'b index \<Rightarrow> bool" where
  "levels_ok S \<longleftrightarrow>
     min_level \<le> used_levels S
     \<and> used_levels S - min_level < length (data S)
     \<and> 1 < length (data S)
     \<and> list_all (\<lambda>j. length (data S ! j) \<le> capacity (j + min_level)
                     \<and> (if used_levels S \<le> j + min_level then data S ! j = [] else True))
          [0..<length (data S)]"

lemma levels_okI:
  "min_level \<le> used_levels S \<Longrightarrow> used_levels S - min_level < length (data S) \<Longrightarrow>
   1 < length (data S) \<Longrightarrow>
   (\<And>j. j < length (data S) \<Longrightarrow> length (data S ! j) \<le> capacity (j + min_level)) \<Longrightarrow>
   (\<And>j. j < length (data S) \<Longrightarrow> used_levels S \<le> j + min_level \<Longrightarrow> data S ! j = []) \<Longrightarrow>
   levels_ok S"
  by (auto simp: levels_ok_def list_all_iff)

lemma levels_okD:
  assumes "levels_ok S"
  shows "min_level \<le> used_levels S" "used_levels S - min_level < length (data S)"
    "1 < length (data S)"
    "\<And>j. j < length (data S) \<Longrightarrow> length (data S ! j) \<le> capacity (j + min_level)"
    "\<And>j. j < length (data S) \<Longrightarrow> used_levels S \<le> j + min_level \<Longrightarrow> data S ! j = []"
  using assms by (auto simp: levels_ok_def list_all_iff split: if_splits)

lemma levels_ok_empty: "levels_ok empty_index"
  by (rule levels_okI) (simp_all add: empty_index_def min_level_def init_levels_def)

lemma sum_pow2: "a \<le> b \<Longrightarrow> (2::nat) ^ a + (\<Sum>j = a..<b. 2 ^ j) = 2 ^ b"
proof (induction b)
  case 0
  then show ?case by simp
next
  case (Suc b)
  show ?case
  proof (cases "a = Suc b")
    case True
    then show ?thesis by simp
  next
    case False
    then have "a \<le> b" using Suc.prems by simp
    then show ?thesis using Suc.IH by simp
  qed
qed

lemma length_resize [simp]: "length (resize junk n xs) = n"
  by (simp add: resize_def)

lemma length_fresh [simp]: "length (fresh junk off n) = n"
  by (simp add: fresh_def)

lemma pairwise_logarithmic_merge_Inr:
  assumes "pairwise_logarithmic_merge c junk S e up size_hint ip = Inr S'"
  obtains t S2 ta tb n' where
    "store (take ip (data S ! 0) @ e # drop ip (data S ! 0))
        (if (up - min_level) mod 2 \<noteq> 0 then fresh junk 0 size_hint
         else fresh junk size_hint (size_hint + length (get_level S (up + 1)))) = Inr t"
    "merge_levels c S ((up - min_level) mod 2)
        (if get_level S (up + 1) = [] then up else up + 1) (1 + min_level)
        (if (up - min_level) mod 2 \<noteq> 0 then t else fresh junk 0 size_hint)
        (if (up - min_level) mod 2 \<noteq> 0
         then fresh junk size_hint (size_hint + length (get_level S (up + 1))) else t)
        (2 ^ (1 + min_level)) = Inr (S2, ta, tb, n')"
    "S' = set_level (set_level S2 min_level []) (up + 1) (resize junk n' tb)"
    "up + 1 - min_level < length (data S)"
proof -
  let ?tgt = "get_level S (up + 1)"
  let ?md = "(up - min_level) mod 2"
  let ?ta = "fresh junk 0 size_hint"
  let ?tb = "fresh junk size_hint (size_hint + length ?tgt)"
  let ?moved = "take ip (data S ! 0) @ e # drop ip (data S ! 0)"
  have rng: "up + 1 - min_level < length (data S)"
    using assms by (auto simp: pairwise_logarithmic_merge_def Let_def split: if_splits)
  have ass: "\<not> 2 ^ (up + 1) - length ?tgt < (2::nat) ^ (1 + min_level)"
    using assms rng by (auto simp: pairwise_logarithmic_merge_def Let_def split: if_splits)
  obtain t where t: "store ?moved (if ?md \<noteq> 0 then ?ta else ?tb) = Inr t"
    using assms rng ass
    by (cases "store ?moved (if ?md \<noteq> 0 then ?ta else ?tb)")
       (auto simp: pairwise_logarithmic_merge_def Let_def split: if_splits)
  let ?ml = "merge_levels c S ?md (if ?tgt = [] then up else up + 1) (1 + min_level)
        (if ?md \<noteq> 0 then t else ?ta) (if ?md \<noteq> 0 then ?tb else t) (2 ^ (1 + min_level))"
  obtain S2 ta tb n' where ml: "?ml = Inr (S2, ta, tb, n')"
    and S': "S' = set_level (set_level S2 min_level []) (up + 1) (resize junk n' tb)"
    using assms rng ass t
    by (cases ?ml) (auto simp: pairwise_logarithmic_merge_def Let_def split: if_splits)
  show ?thesis using that[OF t ml S' rng] .
qed

lemma level_sizes_le_pow2:
  assumes "levels_ok S" and "min_level < a" and "b \<le> used_levels S"
  shows "level_sizes S a b \<le> (\<Sum>j = a..<b. 2 ^ j)"
  unfolding level_sizes_def
proof (rule sum_mono)
  fix j assume "j \<in> {a..<b}"
  then have j: "a \<le> j" "j < b" by simp_all
  then have "j - min_level < length (data S)"
    using assms levels_okD(2)[OF assms(1)] by simp
  then have "length (data S ! (j - min_level)) \<le> capacity (j - min_level + min_level)"
    by (rule levels_okD(4)[OF assms(1)])
  then show "length (get_level S j) \<le> 2 ^ j"
    using j assms(2) by (simp add: get_level_def capacity_def)
qed

lemma level_sizes_cong:
  "(\<And>j. a \<le> j \<Longrightarrow> j < b \<Longrightarrow> get_level S1 j = get_level S2 j) \<Longrightarrow>
   level_sizes S1 a b = level_sizes S2 a b"
  by (simp add: level_sizes_def)

lemma insert_item_levels_ok:
  assumes ok: "levels_ok S" and ins: "insert_item c junk S e = Inr S'"
  shows "levels_ok S'"
proof -
  note d = levels_okD[OF ok]
  let ?b = "data S ! 0"
  let ?ip = "std_lower_bound ?b (first e)"
  have ne: "data S \<noteq> []" using d(3) by auto
  show ?thesis
  proof (cases "?ip < length ?b \<and> first (?b ! ?ip) = first e")
    case True
    then have S': "S' = S\<lparr> data := (data S)[0 := ?b[?ip := e]] \<rparr>"
      using ins ne by (simp add: insert_item_def Let_def)
    show ?thesis
      unfolding S'
    proof (rule levels_okI)
      fix j assume "j < length (data (S\<lparr> data := (data S)[0 := ?b[?ip := e]] \<rparr>))"
      then have j: "j < length (data S)" by simp
      show "length (data (S\<lparr> data := (data S)[0 := ?b[?ip := e]] \<rparr>) ! j) \<le> capacity (j + min_level)"
        using d(4)[OF j] j by (cases j) simp_all
      assume "used_levels (S\<lparr> data := (data S)[0 := ?b[?ip := e]] \<rparr>) \<le> j + min_level"
      then show "data (S\<lparr> data := (data S)[0 := ?b[?ip := e]] \<rparr>) ! j = []"
        using d(5)[OF j] j by (cases j) simp_all
    qed (use d in \<open>auto\<close>)
  next
    case False
    note nf = this
    show ?thesis
    proof (cases "length ?b < 2 ^ (min_level + 1) - 1")
      case True
      then have S': "S' = S\<lparr> data := (data S)[0 := take ?ip ?b @ e # drop ?ip ?b],
                        used_levels := (if used_levels S = min_level then min_level + 1
                                        else used_levels S) \<rparr>"
        using ins ne nf by (simp add: insert_item_def Let_def)
      have len: "length (take ?ip ?b @ e # drop ?ip ?b) = Suc (length ?b)"
        using std_lower_bound_le[of ?b "first e"] by simp
      show ?thesis
        unfolding S'
      proof (rule levels_okI)
        fix j assume "j < length (data (S\<lparr> data := (data S)[0 := take ?ip ?b @ e # drop ?ip ?b],
                        used_levels := (if used_levels S = min_level then min_level + 1
                                        else used_levels S) \<rparr>))"
        then have j: "j < length (data S)" by simp
        show "length (data (S\<lparr> data := (data S)[0 := take ?ip ?b @ e # drop ?ip ?b],
                        used_levels := (if used_levels S = min_level then min_level + 1
                                        else used_levels S) \<rparr>) ! j) \<le> capacity (j + min_level)"
          using d(4)[OF j] j True len by (cases j) (simp_all add: capacity_def)
        assume "used_levels (S\<lparr> data := (data S)[0 := take ?ip ?b @ e # drop ?ip ?b],
                        used_levels := (if used_levels S = min_level then min_level + 1
                                        else used_levels S) \<rparr>) \<le> j + min_level"
        then show "data (S\<lparr> data := (data S)[0 := take ?ip ?b @ e # drop ?ip ?b],
                        used_levels := (if used_levels S = min_level then min_level + 1
                                        else used_levels S) \<rparr>) ! j = []"
          using d(5)[OF j] d(1) j by (cases j) (auto split: if_splits)
      qed (use d in \<open>auto\<close>)
    next
      case False
      note full = this
      have bne: "?b \<noteq> []" using full by (auto simp: min_level_def)
      have ul: "min_level + 1 \<le> used_levels S"
      proof (rule ccontr)
        assume "\<not> min_level + 1 \<le> used_levels S"
        then have "used_levels S \<le> 0 + min_level" by simp
        moreover have "0 < length (data S)" using ne by simp
        ultimately have "data S ! 0 = []" by (intro d(5)) simp_all
        then show False using bne by simp
      qed
      obtain t req where ft: "find_target S (min_level + 1) (2 ^ (min_level + 1) - 1 + 1) = (t, req)"
        by (cases "find_target S (min_level + 1) (2 ^ (min_level + 1) - 1 + 1)") auto
      note ftr = find_target_result[OF ft ul]
      have t1: "min_level + 1 \<le> t" and t2: "t \<le> used_levels S"
        and req: "req = 2 ^ (min_level + 1) - 1 + 1 + level_sizes S (min_level + 1) t"
        and brk: "t < used_levels S \<Longrightarrow> req + length (get_level S t) \<le> 2 ^ t"
        using ftr by simp_all
      define S1 where "S1 = (if t = used_levels S
                      then S\<lparr> used_levels := used_levels S + 1, data := data S @ [[]] \<rparr>
                      else S)"
      have pm: "pairwise_logarithmic_merge c junk S1 e (t - 1) req ?ip = Inr S'"
        using ins ne nf full ft by (simp add: insert_item_def Let_def S1_def)
      have up: "t - 1 + 1 = t" "t - 1 - min_level + 1 = t - min_level" using t1 by simp_all
      have S1_data: "\<And>j. j < length (data S) \<Longrightarrow> data S1 ! j = data S ! j"
        by (simp add: S1_def nth_append)
      have S1_len: "length (data S1) = (if t = used_levels S then Suc (length (data S)) else length (data S))"
        by (simp add: S1_def)
      have S1_ul: "used_levels S1 = (if t = used_levels S then Suc (used_levels S) else used_levels S)"
        by (simp add: S1_def)
      have S1_new: "t = used_levels S \<Longrightarrow> data S1 ! length (data S) = []"
        by (simp add: S1_def nth_append)
      have S1_lvl: "\<And>j. min_level \<le> j \<Longrightarrow> j \<le> used_levels S \<Longrightarrow> get_level S1 j = get_level S j"
        using d(2) by (simp add: get_level_def S1_data)
      have tgt_new: "t = used_levels S \<Longrightarrow> get_level S t = []"
        using d(5)[of "t - min_level"] d(2) t1 by (simp add: get_level_def)
      from pm obtain tt S2 ta tb n' where
        ml: "merge_levels c S1 ((t - 1 - min_level) mod 2)
              (if get_level S1 (t - 1 + 1) = [] then t - 1 else t - 1 + 1) (1 + min_level)
              (if (t - 1 - min_level) mod 2 \<noteq> 0 then tt else fresh junk 0 req)
              (if (t - 1 - min_level) mod 2 \<noteq> 0
               then fresh junk req (req + length (get_level S1 (t - 1 + 1))) else tt)
              (2 ^ (1 + min_level)) = Inr (S2, ta, tb, n')"
        and S': "S' = set_level (set_level S2 min_level []) (t - 1 + 1) (resize junk n' tb)"
        and rng: "t - 1 + 1 - min_level < length (data S1)"
        by (rule pairwise_logarithmic_merge_Inr)
      let ?limit = "if get_level S t = [] then t - 1 else t"
      have tgt1: "get_level S1 t = get_level S t"
        using S1_lvl[of t] t1 t2 by simp
      note mr = merge_levels_result[OF ml[unfolded up tgt1]]
      have mr1: "used_levels S2 = used_levels S1" "length (data S2) = length (data S1)"
        and mr3: "\<And>j. j < length (data S1) \<Longrightarrow> data S2 ! j
           = (if 1 + min_level \<le> j + min_level \<and> j + min_level \<le> ?limit then [] else data S1 ! j)"
        using mr by simp_all
      have n'le: "n' \<le> 2 ^ (1 + min_level) + level_sizes S1 (1 + min_level) (Suc ?limit)"
        by (rule merge_levels_size[OF ml[unfolded up tgt1]]) simp_all
      have limit_le: "?limit \<le> t" by simp
      have sz: "level_sizes S1 (1 + min_level) (Suc ?limit) = level_sizes S (1 + min_level) (Suc ?limit)"
        using t2 by (intro level_sizes_cong S1_lvl) (auto split: if_splits)
      have n't: "n' \<le> 2 ^ t"
      proof (cases "t < used_levels S")
        case True
        have "level_sizes S (1 + min_level) (Suc ?limit) \<le> level_sizes S (min_level + 1) t + length (get_level S t)"
          using t1 by (auto simp: level_sizes_last)
        then show ?thesis using brk[OF True] req n'le sz by simp
      next
        case False
        then have tu: "t = used_levels S" using t2 by simp
        then have lim: "?limit = t - 1" using tgt_new by simp
        have "level_sizes S (1 + min_level) t \<le> (\<Sum>j = 1 + min_level..<t. 2 ^ j)"
          using ok t2 by (intro level_sizes_le_pow2) simp_all
        moreover have "(2::nat) ^ (1 + min_level) + (\<Sum>j = 1 + min_level..<t. 2 ^ j) = 2 ^ t"
          using t1 by (intro sum_pow2) simp
        ultimately show ?thesis using n'le sz lim t1 by simp
      qed
      have S'_data: "data S' = ((data S2)[0 := []])[t - min_level := resize junk n' tb]"
        using S' up by (simp add: set_level_def)
      have S'_ul: "used_levels S' = used_levels S1"
        using S' mr1 by (simp add: set_level_def)
      have tlt: "t < used_levels S1" using t2 S1_ul by (auto split: if_splits)
      show ?thesis
      proof (rule levels_okI)
        show "min_level \<le> used_levels S'" using S'_ul S1_ul d(1) by (auto split: if_splits)
        show "used_levels S' - min_level < length (data S')"
          using S'_ul S'_data mr1 S1_ul S1_len d(2) d(1) by (auto split: if_splits)
        show "1 < length (data S')" using S'_data mr1 S1_len d(3) by (auto split: if_splits)
      next
        fix j assume j: "j < length (data S')"
        then have j1: "j < length (data S1)" using S'_data mr1 by simp
        have S1j: "length (data S1 ! j) \<le> capacity (j + min_level)"
        proof (cases "j < length (data S)")
          case True
          then show ?thesis using d(4)[OF True] S1_data by simp
        next
          case False
          then have "j = length (data S)" "t = used_levels S" using j1 S1_len by (auto split: if_splits)
          then show ?thesis using S1_new by simp
        qed
        show "length (data S' ! j) \<le> capacity (j + min_level)"
        proof (cases "j = t - min_level")
          case True
          then have "data S' ! j = resize junk n' tb" using S'_data j1 mr1 by simp
          moreover have "capacity (j + min_level) = 2 ^ t" using True t1 by (simp add: capacity_def)
          ultimately show ?thesis using n't by simp
        next
          case False
          then have "data S' ! j = (if j = 0 then [] else data S2 ! j)"
            using S'_data j1 mr1 by (auto simp: nth_list_update)
          then show ?thesis using mr3[OF j1] S1j by (auto split: if_splits)
        qed
        assume top: "used_levels S' \<le> j + min_level"
        then have jt: "j \<noteq> t - min_level" using tlt S'_ul t1 by auto
        then have eq: "data S' ! j = (if j = 0 then [] else data S2 ! j)"
          using S'_data j1 mr1 by (auto simp: nth_list_update)
        have "data S1 ! j = []"
        proof (cases "j < length (data S)")
          case True
          then show ?thesis using d(5)[OF True] S1_data top S'_ul S1_ul by (auto split: if_splits)
        next
          case False
          then have "j = length (data S)" "t = used_levels S" using j1 S1_len by (auto split: if_splits)
          then show ?thesis using S1_new by simp
        qed
        then show "data S' ! j = []" using eq mr3[OF j1] by (auto split: if_splits)
      qed
    qed
  qed
qed

lemma length_copy_first_of_each: "length (copy_first_of_each c prev ps) \<le> length ps"
  by (induction ps arbitrary: prev) (auto simp: le_SucI)

lemma build_levels_ok:
  fixes c :: "('v::linorder, 'b) params" and S :: "'b index"
  assumes "build c pairs = Inr S"
  shows "levels_ok S"
proof -
  obtain p ps where pairs: "pairs = p # ps"
    using assms by (cases pairs) (auto simp: build_def split: if_splits)
  let ?n = "length pairs"
  let ?ul = "ceil_log2 ?n + 1"
  define levels :: "'b Item list list"
    where "levels = replicate (max ?ul max_fully_allocated_level - min_level + 1) []"
  let ?target = "make_item c (fst p) (snd p) # copy_first_of_each c (make_item c (fst p) (snd p)) ps"
  have ge: "min_level \<le> ceil_log2 ?n"
    using assms pairs by (auto simp: build_def Let_def split: if_splits)
  have S: "S = \<lparr> used_levels = ?ul, data = levels[?ul - 1 - min_level := ?target] \<rparr>"
    using assms pairs by (auto simp: build_def Let_def levels_def split: if_splits)
  have ll: "length levels = max ?ul max_fully_allocated_level - min_level + 1"
    by (simp add: levels_def)
  have lnth: "\<And>j. j < length levels \<Longrightarrow> levels ! j = []"
    unfolding levels_def by (simp only: length_replicate nth_replicate)
  have len: "length ?target \<le> ?n"
    using length_copy_first_of_each[of c "make_item c (fst p) (snd p)" ps] pairs by simp
  have n: "?n \<le> 2 ^ ceil_log2 ?n" by (rule le_ceil_log2)
  have cap: "length ?target \<le> capacity (ceil_log2 ?n)"
  proof (cases "ceil_log2 ?n = min_level")
    case True
    then have "?n \<le> 2 ^ min_level" using n by simp
    then show ?thesis using len True by (simp add: capacity_def)
  next
    case False
    then show ?thesis using len n by (simp add: capacity_def)
  qed
  show ?thesis
    unfolding S
  proof (rule levels_okI)
    fix j assume "j < length (data \<lparr> used_levels = ?ul, data = levels[?ul - 1 - min_level := ?target] \<rparr>)"
    then have j: "j < length levels" by simp
    show "length (data \<lparr> used_levels = ?ul, data = levels[?ul - 1 - min_level := ?target] \<rparr> ! j)
            \<le> capacity (j + min_level)"
    proof (cases "j = ceil_log2 ?n - min_level")
      case True
      then show ?thesis using j cap ge by simp
    next
      case False
      then show ?thesis using j lnth by simp
    qed
    assume "used_levels \<lparr> used_levels = ?ul, data = levels[?ul - 1 - min_level := ?target] \<rparr> \<le> j + min_level"
    then have "j \<noteq> ceil_log2 ?n - min_level" using ge by auto
    then show "data \<lparr> used_levels = ?ul, data = levels[?ul - 1 - min_level := ?target] \<rparr> ! j = []"
      using j lnth by simp
  qed (use ge ll in \<open>auto simp: max_fully_allocated_level_def min_level_def\<close>)
qed

inductive reachable :: "('v::linorder, 'b) params \<Rightarrow> 'b index \<Rightarrow> bool" for c where
  reachable_empty: "reachable c empty_index"
| reachable_build: "build c pairs = Inr S \<Longrightarrow> reachable c S"
| reachable_insert: "reachable c S \<Longrightarrow> insert_kv c junk S k v = Inr S' \<Longrightarrow> reachable c S'"
| reachable_erase: "reachable c S \<Longrightarrow> erase c junk S k = Inr S' \<Longrightarrow> reachable c S'"

lemma reachable_levels_ok: "reachable c S \<Longrightarrow> levels_ok S"
proof (induction rule: reachable.induct)
  case reachable_empty
  show ?case by (rule levels_ok_empty)
next
  case (reachable_build pairs S)
  then show ?case by (rule build_levels_ok)
next
  case (reachable_insert S junk k v S')
  then show ?case using insert_item_levels_ok by (simp add: insert_kv_def) blast
next
  case (reachable_erase S junk k S')
  then show ?case using insert_item_levels_ok by (simp add: erase_def) blast
qed

text \<open>
  C6. In every container reached from the empty one or from a bulk load by insertions and
  erasures, the buffer (level \<open>min_level\<close>) holds at most \<open>2^(min_level+1) - 1\<close>
  items and every other level \<open>L\<close> of \<open>data\<close> at most \<open>2^L\<close>.
\<close>

theorem level_sizes_within_capacity:
  assumes "reachable c S" and "min_level \<le> L" and "L - min_level < length (data S)"
  shows "length (get_level S L) \<le> (if L = min_level then 2 ^ (min_level + 1) - 1 else 2 ^ L)"
proof -
  have "levels_ok S" using assms(1) by (rule reachable_levels_ok)
  then have "length (data S ! (L - min_level)) \<le> capacity (L - min_level + min_level)"
    using assms(3) by (rule levels_okD(4))
  then show ?thesis using assms(2) by (simp add: get_level_def capacity_def)
qed

lemma insert_first_key:
  "insert_kv example_params example_junk empty_index 5 1
     = Inr \<lparr> used_levels = 7, data = [make_item example_params 5 1] # replicate 8 [] \<rparr>"
  by (simp add: insert_kv_def insert_item_def empty_index_def min_level_def init_levels_def
      std_lower_bound_def Let_def numeral_eq_Suc)

theorem level_sizes_within_capacity_witness:
  "reachable example_params \<lparr> used_levels = 7, data = [make_item example_params 5 1] # replicate 8 [] \<rparr>
   \<and> length (get_level \<lparr> used_levels = 7, data = [make_item example_params 5 1] # replicate 8 [] \<rparr> min_level)
       \<le> 2 ^ (min_level + 1) - 1
   \<and> length (get_level \<lparr> used_levels = 7, data = [make_item example_params 5 1] # replicate 8 [] \<rparr> 7)
       \<le> 2 ^ 7"
proof -
  let ?S = "\<lparr> used_levels = 7, data = [make_item example_params 5 1] # replicate 8 [] \<rparr>"
  have r: "reachable example_params ?S"
    using reachable_insert[OF reachable_empty insert_first_key] .
  show ?thesis
    using r level_sizes_within_capacity[OF r, of min_level] level_sizes_within_capacity[OF r, of 7]
    by (simp add: min_level_def)
qed

section \<open>Runs of operations\<close>

text \<open>
  A sequence of public operations, run from a container until the first error.
\<close>

datatype 'v operation = Insert nat 'v | Erase nat

fun item_of :: "('v, 'b) params \<Rightarrow> 'v operation \<Rightarrow> 'b Item" where
  "item_of c (Insert k v) = make_item c k v"
| "item_of c (Erase k) = make_deleted c k"

fun apply_operation ::
  "('v, 'b) params \<Rightarrow> (nat \<Rightarrow> 'b Item) \<Rightarrow> 'b index \<Rightarrow> 'v operation \<Rightarrow> error + 'b index" where
  "apply_operation c junk S (Insert k v) = insert_kv c junk S k v"
| "apply_operation c junk S (Erase k) = erase c junk S k"

fun run ::
  "('v, 'b) params \<Rightarrow> (nat \<Rightarrow> 'b Item) \<Rightarrow> 'b index \<Rightarrow> 'v operation list \<Rightarrow> error + 'b index" where
  "run c junk S [] = Inr S"
| "run c junk S (x # xs) =
     (case apply_operation c junk S x of Inl e \<Rightarrow> Inl e | Inr S' \<Rightarrow> run c junk S' xs)"

fun insert_items ::
  "('v, 'b) params \<Rightarrow> (nat \<Rightarrow> 'b Item) \<Rightarrow> 'b index \<Rightarrow> 'b Item list \<Rightarrow> error + 'b index" where
  "insert_items c junk S [] = Inr S"
| "insert_items c junk S (e # es) =
     (case insert_item c junk S e of Inl err \<Rightarrow> Inl err | Inr S' \<Rightarrow> insert_items c junk S' es)"

lemma apply_operation_item: "apply_operation c junk S x = insert_item c junk S (item_of c x)"
  by (cases x) (simp_all add: insert_kv_def erase_def)

lemma run_insert_items: "run c junk S xs = insert_items c junk S (map (item_of c) xs)"
  by (induction xs arbitrary: S) (simp_all add: apply_operation_item split: sum.splits)

lemma insert_items_append:
  "insert_items c junk S (es @ fs) =
     (case insert_items c junk S es of Inl err \<Rightarrow> Inl err | Inr S' \<Rightarrow> insert_items c junk S' fs)"
  by (induction es arbitrary: S) (simp_all split: sum.splits)

text \<open>
  \<open>st ul n b l7 l8 l9\<close> is the container with the buffer \<open>b\<close>, the levels 7, 8 and 9
  and \<open>n\<close> further levels, all empty.
\<close>

definition st :: "nat \<Rightarrow> nat \<Rightarrow> 'b Item list \<Rightarrow> 'b Item list \<Rightarrow> 'b Item list \<Rightarrow> 'b Item list \<Rightarrow> 'b index" where
  "st ul n b l7 l8 l9 = \<lparr> used_levels = ul, data = b # l7 # l8 # l9 # replicate n [] \<rparr>"

lemma std_lower_bound_all_less:
  "\<forall>x\<in>set xs. first x < k \<Longrightarrow> std_lower_bound xs k = length xs"
  by (induction xs) (simp_all add: std_lower_bound_def)

lemma insert_item_append:
  assumes "length b < 127" and "\<forall>x\<in>set b. first x < first e"
  shows "insert_item c junk (st ul n b l7 l8 l9) e
           = Inr (st (if ul = min_level then min_level + 1 else ul) n (b @ [e]) l7 l8 l9)"
  using assms
  by (simp add: insert_item_def st_def std_lower_bound_all_less min_level_def Let_def)

lemma insert_items_fill:
  assumes "strictly_sorted (b @ es)" and "length (b @ es) \<le> 127" and "es \<noteq> []"
  shows "insert_items c junk (st ul n b l7 l8 l9) es
           = Inr (st (if ul = min_level then min_level + 1 else ul) n (b @ es) l7 l8 l9)"
  using assms
proof (induction es arbitrary: b ul)
  case Nil
  then show ?case by simp
next
  case (Cons e es)
  have lt: "length b < 127" using Cons.prems(2) by simp
  have less: "\<forall>x\<in>set b. first x < first e"
    using Cons.prems(1) by (auto simp: strictly_sorted_append)
  note step = insert_item_append[OF lt less, of c junk ul n l7 l8 l9]
  show ?case
  proof (cases "es = []")
    case True
    then show ?thesis using step by simp
  next
    case False
    have "strictly_sorted ((b @ [e]) @ es)" "length ((b @ [e]) @ es) \<le> 127"
      using Cons.prems by simp_all
    from Cons.IH[OF this False, of "if ul = min_level then min_level + 1 else ul"]
    show ?thesis using step by (simp add: min_level_def)
  qed
qed

subsection \<open>A full buffer and the level it is merged into\<close>

lemma resize_exact: "length xs = n \<Longrightarrow> resize junk n (xs @ ys) = xs"
  by (simp add: resize_def)

lemma resize_all: "length xs = n \<Longrightarrow> resize junk n xs = xs"
  by (simp add: resize_def)

lemma store_fits: "length out \<le> length buf \<Longrightarrow> store out buf = Inr (out @ drop (length out) buf)"
  by (simp add: store_def)

lemma cascade_into_7:
  assumes "length b = 127" and "\<forall>x\<in>set b. first x < first e" and "7 \<le> ul"
  shows "insert_item c junk (st ul n b [] l8 l9) e
           = Inr (st (max ul 8) (if ul = 7 then Suc n else n) [] (b @ [e]) l8 l9)"
proof -
  have ip: "std_lower_bound b (first e) = 127"
    using assms(1,2) by (simp add: std_lower_bound_all_less)
  have ft: "find_target (st ul n b [] l8 l9) 7 128 = (7, 128)"
    by (simp add: find_target.simps[of _ 7] st_def get_level_def min_level_def)
  show ?thesis
  proof (cases "ul = 7")
    case True
    show ?thesis
      using assms(1) True ft
      by (simp add: insert_item_def ip st_def min_level_def Let_def pairwise_logarithmic_merge_def
          get_level_def set_level_def store_fits merge_levels.simps[of _ _ _ 6 7] resize_exact resize_all
          replicate_append_same)
  next
    case False
    show ?thesis
      using assms(1,3) False ft
      by (simp add: insert_item_def ip st_def min_level_def Let_def pairwise_logarithmic_merge_def
          get_level_def set_level_def store_fits merge_levels.simps[of _ _ _ 6 7] resize_exact resize_all)
  qed
qed

lemma length_merge_le: "length xs \<le> a \<Longrightarrow> length ys \<le> b \<Longrightarrow> length (merge c s xs ys) \<le> a + b"
  using length_merge[of c s xs ys] by simp

lemma cascade_into_8:
  assumes "length b = 127" and "\<forall>x\<in>set b. first x < first e" and "8 \<le> ul" and "length l7 = 128"
  shows "insert_item c junk (st ul n b l7 [] l9) e
           = Inr (st (max ul 9) (if ul = 8 then Suc n else n) [] [] (merge c False (b @ [e]) l7) l9)"
proof -
  have ip: "std_lower_bound b (first e) = 127"
    using assms(1,2) by (simp add: std_lower_bound_all_less)
  have ft: "find_target (st ul n b l7 [] l9) 7 128 = (8, 256)"
    using assms(3,4)
    by (simp add: find_target.simps[of _ 7] find_target.simps[of _ 8] st_def get_level_def min_level_def)
  have lm: "length (merge c False (b @ [e]) l7) \<le> 256"
    using length_merge_le[of "b @ [e]" 128 l7 128 c False] assms(1,4) by simp
  show ?thesis
  proof (cases "ul = 8")
    case True
    show ?thesis
      using assms(1,4) True ft lm
      by (simp add: insert_item_def ip st_def min_level_def Let_def pairwise_logarithmic_merge_def
          get_level_def set_level_def store_fits merge_levels.simps[of _ _ _ 7 7]
          merge_levels.simps[of _ _ _ 7 8] resize_exact resize_all replicate_append_same)
  next
    case False
    show ?thesis
      using assms(1,3,4) False ft lm
      by (simp add: insert_item_def ip st_def min_level_def Let_def pairwise_logarithmic_merge_def
          get_level_def set_level_def store_fits merge_levels.simps[of _ _ _ 7 7]
          merge_levels.simps[of _ _ _ 7 8] resize_exact resize_all)
  qed
qed

lemma cascade_into_new_9:
  assumes "length b = 127" and "\<forall>x\<in>set b. first x < first e"
    and "length l7 = 128" and "0 < length l8" and "length l8 \<le> 256"
  shows "insert_item c junk (st 9 n b l7 l8 []) e
           = Inr (st 10 (Suc n) [] [] []
                    (merge c False (merge c False (b @ [e]) l7) l8))"
proof -
  have ip: "std_lower_bound b (first e) = 127"
    using assms(1,2) by (simp add: std_lower_bound_all_less)
  have ar: "\<not> 256 \<le> 256 - length l8" using assms(4) by linarith
  have ft: "find_target (st 9 n b l7 l8 []) 7 128 = (9, 256 + length l8)"
    using assms(3) ar
    by (simp add: find_target.simps[of _ 7] find_target.simps[of _ 8] find_target.simps[of _ 9]
        st_def get_level_def min_level_def)
  have lm1: "length (merge c False (b @ [e]) l7) \<le> 256"
    using length_merge_le[of "b @ [e]" 128 l7 128 c False] assms(1,3) by simp
  have lm2: "length (merge c False (merge c False (b @ [e]) l7) l8) \<le> 256 + length l8"
    using length_merge_le[OF lm1, of l8 "length l8" c False] by simp
  show ?thesis
    using assms(1,3,4,5) ft lm1 lm2
    by (simp add: insert_item_def ip st_def min_level_def Let_def pairwise_logarithmic_merge_def
        get_level_def set_level_def store_fits merge_levels.simps[of _ _ _ 8 7]
        merge_levels.simps[of _ _ _ 8 8] merge_levels.simps[of _ _ _ 8 9]
        resize_exact resize_all replicate_append_same)
qed

lemma cascade_into_used_9:
  assumes "length b = 127" and "\<forall>x\<in>set b. first x < first e"
    and "length l7 = 128" and "length l8 = 128" and "0 < length l9" and "length l9 \<le> 128"
    and "length (merge c True (merge c False (merge c False (b @ [e]) l7) l8) l9) \<le> 384"
  shows "insert_item c junk (st 10 n b l7 l8 l9) e
           = Inr (st 10 n [] [] []
                    (resize junk
                       (length (merge c True (merge c False (merge c False (b @ [e]) l7) l8) l9))
                       (merge c False (merge c False (b @ [e]) l7) l8
                          @ drop (length (merge c False (merge c False (b @ [e]) l7) l8))
                              ((b @ [e]) @ drop 128 (fresh junk 384 (384 + length l9))))))"
proof -
  have ip: "std_lower_bound b (first e) = 127"
    using assms(1,2) by (simp add: std_lower_bound_all_less)
  have ar: "384 \<le> 512 - length l9" using assms(6) by linarith
  have ft: "find_target (st 10 n b l7 l8 l9) 7 128 = (9, 384)"
    using assms(3,4) ar
    by (simp add: find_target.simps[of _ 7] find_target.simps[of _ 8] find_target.simps[of _ 9]
        st_def get_level_def min_level_def)
  have lm1: "length (merge c False (b @ [e]) l7) \<le> 256"
    using length_merge_le[of "b @ [e]" 128 l7 128 c False] assms(1,3) by simp
  have lm2: "length (merge c False (merge c False (b @ [e]) l7) l8) \<le> 384"
    using length_merge_le[OF lm1, of l8 128 c False] assms(4) by simp
  have ne: "l9 \<noteq> []" using assms(5) by auto
  show ?thesis
    using assms(1,3,4,5,6,7) ft lm1 lm2 ne
    by (simp add: insert_item_def ip st_def min_level_def Let_def pairwise_logarithmic_merge_def
        get_level_def set_level_def store_fits merge_levels.simps[of _ _ _ 9 7]
        merge_levels.simps[of _ _ _ 9 8] merge_levels.simps[of _ _ _ 9 9]
        merge_levels.simps[of _ _ _ 9 10])
qed

subsection \<open>Rounds of 128 keys\<close>

text \<open>
  \<open>key_run off es\<close>: the items \<open>es\<close> have the keys \<open>off, ..., off + 127\<close> in this
  order. Inserted into an empty buffer, the first 127 fill it and the last one starts a
  merge.
\<close>

lemma merge_same_keys:
  "map first xs = map first ys \<Longrightarrow>
   merge c s xs ys = (if s then filter (\<lambda>x. \<not> deleted c x) xs else xs)"
proof (induction xs arbitrary: ys)
  case Nil
  then show ?case by simp
next
  case (Cons x xs)
  then obtain y ys' where ys: "ys = y # ys'" "first x = first y" "map first xs = map first ys'"
    by (cases ys) auto
  then show ?case using Cons.IH[of ys'] by (cases s) simp_all
qed

lemma merge_all_greater:
  "\<forall>x\<in>set xs. \<forall>y\<in>set ys. first y < first x \<Longrightarrow> merge c s xs ys = ys @ xs"
proof (induction ys)
  case Nil
  then show ?case by (cases xs) simp_all
next
  case (Cons y ys)
  then show ?case by (cases xs) simp_all
qed

definition key_run :: "nat \<Rightarrow> 'b Item list \<Rightarrow> bool" where
  "key_run off es \<longleftrightarrow> map first es = [off..<off + 128]"

lemma key_run_length: "key_run off es \<Longrightarrow> length es = 128"
  unfolding key_run_def by (metis add_diff_cancel_left' length_map length_upt)

lemma key_run_sorted: "key_run off es \<Longrightarrow> strictly_sorted es"
  by (simp add: key_run_def strictly_sorted_def)

lemma key_run_same: "key_run off xs \<Longrightarrow> key_run off ys \<Longrightarrow> map first xs = map first ys"
  by (simp add: key_run_def)

lemma round_fill:
  assumes "key_run off es"
  shows "insert_items c junk (st ul n [] l7 l8 l9) es
           = insert_item c junk (st (if ul = min_level then min_level + 1 else ul) n (butlast es) l7 l8 l9)
               (last es)"
    and "length (butlast es) = 127"
    and "\<forall>x\<in>set (butlast es). first x < first (last es)"
    and "butlast es @ [last es] = es"
proof -
  have len: "length es = 128" using assms by (rule key_run_length)
  then have ne: "es \<noteq> []" by auto
  show split: "butlast es @ [last es] = es" using ne by simp
  have ss: "strictly_sorted (butlast es @ [last es])"
    using key_run_sorted[OF assms] split by simp
  show "length (butlast es) = 127" using len by simp
  then have bne: "butlast es \<noteq> []" by (cases "butlast es") simp_all
  show "\<forall>x\<in>set (butlast es). first x < first (last es)"
    using ss by (simp add: strictly_sorted_append)
  have ssb: "strictly_sorted ([] @ butlast es)"
    using ss by (simp add: strictly_sorted_append)
  have "insert_items c junk (st ul n [] l7 l8 l9) (butlast es @ [last es])
          = insert_item c junk (st (if ul = min_level then min_level + 1 else ul) n (butlast es) l7 l8 l9)
              (last es)"
    using insert_items_fill[OF ssb _ bne, of c junk ul n l7 l8 l9] \<open>length (butlast es) = 127\<close>
    by (simp add: insert_items_append split: sum.splits)
  then show "insert_items c junk (st ul n [] l7 l8 l9) es
           = insert_item c junk (st (if ul = min_level then min_level + 1 else ul) n (butlast es) l7 l8 l9)
               (last es)"
    using split by simp
qed

lemma round_into_7:
  assumes "key_run off es" and "ul = 6 \<or> 8 \<le> ul"
  shows "insert_items c junk (st ul n [] [] l8 l9) es
           = Inr (st (max ul 8) (if ul = 6 then Suc n else n) [] es l8 l9)"
proof -
  note f = round_fill(1)[OF assms(1), of c junk ul n "[]" l8 l9] round_fill(2,3,4)[OF assms(1)]
  have "7 \<le> (if ul = min_level then min_level + 1 else ul)"
    using assms(2) by (auto simp: min_level_def)
  from cascade_into_7[OF f(2) f(3) this, of c junk n l8 l9]
  show ?thesis using f(1) f(4) assms(2) by (auto simp: min_level_def)
qed

lemma round_into_8:
  assumes "key_run off es" and "8 \<le> ul" and "length l7 = 128"
  shows "insert_items c junk (st ul n [] l7 [] l9) es
           = Inr (st (max ul 9) (if ul = 8 then Suc n else n) [] [] (merge c False es l7) l9)"
proof -
  note f = round_fill(1)[OF assms(1), of c junk ul n l7 "[]" l9] round_fill(2,3,4)[OF assms(1)]
  from cascade_into_8[OF f(2) f(3) assms(2,3), of c junk n l9]
  show ?thesis using f(1) f(4) assms(2) by (auto simp: min_level_def)
qed

lemma round_into_new_9:
  assumes "key_run off es" and "length l7 = 128" and "0 < length l8" and "length l8 \<le> 256"
  shows "insert_items c junk (st 9 n [] l7 l8 []) es
           = Inr (st 10 (Suc n) [] [] [] (merge c False (merge c False es l7) l8))"
proof -
  note f = round_fill(1)[OF assms(1), of c junk 9 n l7 l8 "[]"] round_fill(2,3,4)[OF assms(1)]
  from cascade_into_new_9[OF f(2) f(3) assms(2,3,4), of c junk n]
  show ?thesis using f(1) f(4) by (auto simp: min_level_def)
qed

lemma round_into_used_9:
  assumes "key_run off es" and "length l7 = 128" and "length l8 = 128"
    and "0 < length l9" and "length l9 \<le> 128"
    and "length (merge c True (merge c False (merge c False es l7) l8) l9) \<le> 384"
  shows "insert_items c junk (st 10 n [] l7 l8 l9) es
           = Inr (st 10 n [] [] []
                    (resize junk
                       (length (merge c True (merge c False (merge c False es l7) l8) l9))
                       (merge c False (merge c False es l7) l8
                          @ drop (length (merge c False (merge c False es l7) l8))
                              (es @ drop 128 (fresh junk 384 (384 + length l9))))))"
proof -
  note f = round_fill(1)[OF assms(1), of c junk 10 n l7 l8 l9] round_fill(2,3,4)[OF assms(1)]
  have "length (merge c True (merge c False (merge c False (butlast es @ [last es]) l7) l8) l9) \<le> 384"
    using assms(6) f(4) by simp
  from cascade_into_used_9[OF f(2) f(3) assms(2,3,4,5) this, of junk n]
  show ?thesis using f(1) f(4) by (auto simp: min_level_def)
qed

lemma empty_index_st: "empty_index = st 6 5 [] [] [] []"
  by (simp add: empty_index_def st_def min_level_def init_levels_def numeral_eq_Suc)

lemma four_rounds:
  assumes "key_run off es1" and "key_run off es2" and "key_run off es3" and "key_run off es4"
  shows "insert_items c junk empty_index (es1 @ es2 @ es3 @ es4) = Inr (st 10 8 [] [] [] es4)"
proof -
  note len = key_run_length[OF assms(1)] key_run_length[OF assms(2)]
    key_run_length[OF assms(3)] key_run_length[OF assms(4)]
  have r1: "insert_items c junk (st 6 5 [] [] [] []) es1 = Inr (st 8 6 [] es1 [] [])"
    using round_into_7[OF assms(1), of 6 c junk 5 "[]" "[]"] by simp
  have r2: "insert_items c junk (st 8 6 [] es1 [] []) es2 = Inr (st 9 7 [] [] es2 [])"
    using round_into_8[OF assms(2), of 8 es1 c junk 6 "[]"] len
      merge_same_keys[OF key_run_same[OF assms(2) assms(1)], of c False]
    by simp
  have r3: "insert_items c junk (st 9 7 [] [] es2 []) es3 = Inr (st 9 7 [] es3 es2 [])"
    using round_into_7[OF assms(3), of 9 c junk 7 es2 "[]"] by simp
  have r4: "insert_items c junk (st 9 7 [] es3 es2 []) es4 = Inr (st 10 8 [] [] [] es4)"
    using round_into_new_9[OF assms(4), of es3 es2 c junk 7] len
      merge_same_keys[OF key_run_same[OF assms(4) assms(3)], of c False]
      merge_same_keys[OF key_run_same[OF assms(4) assms(2)], of c False]
    by simp
  show ?thesis
    using r1 r2 r3 r4 by (simp add: insert_items_append empty_index_st)
qed

lemma four_more_rounds:
  assumes "key_run off es5" and "key_run off es6" and "key_run off es7" and "key_run off es8"
    and "length l9 = 128"
    and "length (merge c True es8 l9) \<le> 384"
  shows "insert_items c junk (st 10 8 [] [] [] l9) (es5 @ es6 @ es7 @ es8)
           = Inr (st 10 8 [] [] []
                    (resize junk (length (merge c True es8 l9))
                       (es8 @ drop 128 (fresh junk 384 512))))"
proof -
  note len = key_run_length[OF assms(1)] key_run_length[OF assms(2)]
    key_run_length[OF assms(3)] key_run_length[OF assms(4)]
  have r5: "insert_items c junk (st 10 8 [] [] [] l9) es5 = Inr (st 10 8 [] es5 [] l9)"
    using round_into_7[OF assms(1), of 10 c junk 8 "[]" l9] by simp
  have r6: "insert_items c junk (st 10 8 [] es5 [] l9) es6 = Inr (st 10 8 [] [] es6 l9)"
    using round_into_8[OF assms(2), of 10 es5 c junk 8 l9] len
      merge_same_keys[OF key_run_same[OF assms(2) assms(1)], of c False]
    by simp
  have r7: "insert_items c junk (st 10 8 [] [] es6 l9) es7 = Inr (st 10 8 [] es7 es6 l9)"
    using round_into_7[OF assms(3), of 10 c junk 8 es6 l9] by simp
  have m1: "merge c False es8 es7 = es8"
    using merge_same_keys[OF key_run_same[OF assms(4) assms(3)], of c False] by simp
  have m2: "merge c False es8 es6 = es8"
    using merge_same_keys[OF key_run_same[OF assms(4) assms(2)], of c False] by simp
  have r8: "insert_items c junk (st 10 8 [] es7 es6 l9) es8
             = Inr (st 10 8 [] [] []
                    (resize junk (length (merge c True es8 l9))
                       (es8 @ drop 128 (fresh junk 384 512))))"
    using round_into_used_9[OF assms(4), of es7 es6 l9 c junk 8] len assms(5,6)
    by (simp add: m1 m2)
  show ?thesis
    using r5 r6 r7 r8 by (simp add: insert_items_append)
qed

definition insert_round :: "nat \<Rightarrow> 'v \<Rightarrow> 'v operation list" where
  "insert_round off v = map (\<lambda>k. Insert k v) [off..<off + 128]"

definition erase_round :: "nat \<Rightarrow> 'v operation list" where
  "erase_round off = map Erase [off..<off + 128]"

definition last_round :: "nat operation list" where
  "last_round = map (\<lambda>k. if k = 5 then Erase 5 else Insert k 8) [0..<128]"

definition seven_rounds :: "nat operation list" where
  "seven_rounds = insert_round 0 1 @ insert_round 0 2 @ insert_round 0 3 @ insert_round 0 4
                    @ insert_round 0 5 @ insert_round 0 6 @ insert_round 0 7"

lemma key_run_insert_round:
  "key_run off (map (item_of example_params) (insert_round off v))"
  by (simp add: key_run_def insert_round_def comp_def example_params_def flagged_values_def)

lemma key_run_erase_round:
  "key_run off (map (item_of example_params) (erase_round off))"
  by (simp add: key_run_def erase_round_def comp_def example_params_def flagged_values_def)

lemma key_run_last_round:
  "key_run 0 (map (item_of example_params) last_round)"
  by (simp add: key_run_def last_round_def comp_def example_params_def flagged_values_def if_distrib
      cong: if_cong)

lemma run_eight_rounds:
  assumes "key_run 0 (map (item_of example_params) r8)"
    and "length (merge example_params True (map (item_of example_params) r8)
                   (map (item_of example_params) (insert_round 0 4))) \<le> 384"
  shows "run example_params junk empty_index (seven_rounds @ r8)
           = Inr (st 10 8 [] [] []
                    (resize junk
                       (length (merge example_params True (map (item_of example_params) r8)
                                  (map (item_of example_params) (insert_round 0 4))))
                       (map (item_of example_params) r8 @ drop 128 (fresh junk 384 512))))"
proof -
  let ?r = "\<lambda>v. map (item_of example_params) (insert_round 0 v :: nat operation list)"
  have a: "insert_items example_params junk empty_index (?r 1 @ ?r 2 @ ?r 3 @ ?r 4)
             = Inr (st 10 8 [] [] [] (?r 4))"
    by (rule four_rounds[OF key_run_insert_round key_run_insert_round key_run_insert_round
          key_run_insert_round])
  have b: "insert_items example_params junk (st 10 8 [] [] [] (?r 4))
              (?r 5 @ ?r 6 @ ?r 7 @ map (item_of example_params) r8)
             = Inr (st 10 8 [] [] []
                    (resize junk
                       (length (merge example_params True (map (item_of example_params) r8) (?r 4)))
                       (map (item_of example_params) r8 @ drop 128 (fresh junk 384 512))))"
    by (rule four_more_rounds[OF key_run_insert_round key_run_insert_round key_run_insert_round
          assms(1) key_run_length[OF key_run_insert_round] assms(2)])
  have "insert_items example_params junk empty_index
          ((?r 1 @ ?r 2 @ ?r 3 @ ?r 4) @ (?r 5 @ ?r 6 @ ?r 7 @ map (item_of example_params) r8))
        = Inr (st 10 8 [] [] []
                    (resize junk
                       (length (merge example_params True (map (item_of example_params) r8) (?r 4)))
                       (map (item_of example_params) r8 @ drop 128 (fresh junk 384 512))))"
    unfolding insert_items_append[of _ _ _ "?r 1 @ ?r 2 @ ?r 3 @ ?r 4"] a using b by simp
  then show ?thesis
    by (simp add: run_insert_items seven_rounds_def)
qed

lemma merge_skip_erase_round:
  "merge example_params True (map (item_of example_params) (erase_round 0))
      (map (item_of example_params) (insert_round 0 v)) = []"
proof -
  have "filter (\<lambda>x. \<not> deleted example_params x) (map (item_of example_params) (erase_round 0 :: nat operation list)) = []"
    by (simp add: erase_round_def filter_empty_conv example_params_def flagged_values_def deleted_def)
  then show ?thesis
    using merge_same_keys[OF key_run_same[OF key_run_erase_round key_run_insert_round],
            where c = example_params and s = True]
    by simp
qed

text \<open>
  C7 at a failing input. Seven rounds insert the keys 0 to 127 and an eighth erases them.
  The last erasure merges into level 9, the level \<open>used_levels - 1\<close>, with
  \<open>SkipDeleted\<close>; every item is dropped, every level is empty afterwards, and
  \<open>used_levels\<close> is still 10, not \<open>min_level\<close>.
\<close>

theorem used_levels_after_erasing_everything:
  "run example_params junk empty_index (seven_rounds @ erase_round 0)
     = Inr \<lparr> used_levels = 10, data = replicate 12 [] \<rparr>"
proof -
  have "run example_params junk empty_index (seven_rounds @ erase_round 0)
          = Inr (st 10 8 [] [] [] [])"
    using run_eight_rounds[OF key_run_erase_round, of junk]
    by (simp add: merge_skip_erase_round resize_def)
  then show ?thesis
    by (simp add: st_def numeral_eq_Suc)
qed

lemma upt_split_5: "[0..<128] = [0..<5] @ 5 # [6..<128]"
proof -
  have "[0..<128] = [0..<5] @ [5..<128]"
    using upt_add_eq_append[of 0 5 123] by simp
  moreover have "[5..<128] = 5 # [6..<128]"
    by (simp add: upt_conv_Cons)
  ultimately show ?thesis by simp
qed

lemma live_last_round:
  "length (filter (\<lambda>x. \<not> deleted example_params x) (map (item_of example_params) last_round)) = 127"
proof -
  have "filter (\<lambda>x. \<not> deleted example_params x) (map (item_of example_params) last_round)
          = map (item_of example_params) (map (\<lambda>k. Insert k 8) ([0..<5] @ [6..<128]))"
    unfolding last_round_def upt_split_5
    by (simp add: filter_map comp_def example_params_def flagged_values_def deleted_def
        filter_id_conv)
  then show ?thesis by simp
qed

lemma merge_skip_last_round:
  "length (merge example_params True (map (item_of example_params) last_round)
      (map (item_of example_params) (insert_round 0 v))) = 127"
  using merge_same_keys[OF key_run_same[OF key_run_last_round key_run_insert_round],
            where c = example_params and s = True] live_last_round
  by simp

lemma run_shadow_ops:
  "run example_params junk empty_index (seven_rounds @ last_round)
     = Inr (st 10 8 [] [] [] (take 127 (map (item_of example_params) last_round)))"
proof -
  have len: "length (map (item_of example_params) last_round) = 128"
    by (rule key_run_length[OF key_run_last_round])
  have "resize junk 127 (map (item_of example_params) last_round @ drop 128 (fresh junk 384 512))
          = take 127 (map (item_of example_params) last_round)"
    using len by (simp add: resize_def)
  then show ?thesis
    using run_eight_rounds[OF key_run_last_round, of junk]
    by (simp add: merge_skip_last_round)
qed

lemma upt_6_10: "[6..<10] = [6, 7, 8, 9]"
  by (simp add: upt_conv_Cons)

lemma first_take_last_round:
  assumes "x \<in> set (take 127 (map (item_of example_params) last_round))"
  shows "first x < 127"
proof -
  let ?es = "map (item_of example_params) last_round"
  have len: "length ?es = 128" by (rule key_run_length[OF key_run_last_round])
  obtain i where i: "i < 127" "x = ?es ! i"
    using assms len by (auto simp: in_set_conv_nth simp del: length_map)
  have "first (?es ! i) = map first ?es ! i"
    using i(1) len by (simp del: length_map map_map)
  also have "\<dots> = [0..<128] ! i"
    using key_run_last_round by (simp add: key_run_def del: map_map)
  also have "\<dots> = i" using i(1) by simp
  finally show ?thesis using i by simp
qed

lemma find_in_level_all_less:
  "\<forall>x\<in>set level. first x < k \<Longrightarrow> find_in_level c False level k = None"
  by (simp add: find_in_level_def std_lower_bound_all_less)

lemma find_in_level_Nil [simp]: "find_in_level c indexed [] k = None"
  by (simp add: find_in_level_def)

lemma MinIndexedLevel_example [simp]: "MinIndexedLevel example_params = 18"
  by (simp add: example_params_def flagged_values_def)

text \<open>
  C1 at a failing input. Seven rounds insert the keys 0 to 127; the eighth erases key 5 and
  inserts the others again, key 127 last. That insertion merges into level 9, which holds
  items: the result of the last merge, 127 items, is written to \<open>tmp_a\<close>, and
  \<open>tmp_b\<close>, which holds the result of the merge before it, is cut to 127 items and
  becomes level 9. The item of key 127 is cut off, and \<open>find(127)\<close> returns
  \<open>end()\<close> right after \<open>insert(127, 8)\<close>.
\<close>

theorem find_misses_last_inserted_key:
  "run example_params junk empty_index (seven_rounds @ last_round)
     = Inr (st 10 8 [] [] [] (take 127 (map (item_of example_params) last_round)))
   \<and> find_key example_params
        (st 10 8 [] [] [] (take 127 (map (item_of example_params) last_round))) 127 = None
   \<and> last (seven_rounds @ last_round) = Insert 127 8"
proof -
  let ?l9 = "take 127 (map (item_of example_params) last_round)"
  have lb: "find_in_level example_params False ?l9 127 = None"
    by (rule find_in_level_all_less) (simp add: first_take_last_round)
  have f: "find_key example_params (st 10 8 [] [] [] ?l9) 127 = None"
    by (simp add: find_key_def upt_6_10 st_def get_level_def min_level_def lb Let_def)
  have "last_round \<noteq> []" by (simp add: last_round_def)
  moreover have "last last_round = Insert 127 8"
    by (simp add: last_round_def last_map)
  ultimately have l: "last (seven_rounds @ last_round) = Insert 127 8" by simp
  show ?thesis using run_shadow_ops f l by simp
qed

section \<open>Range lookup\<close>

text \<open>
  What \<open>lower_bound\<close> needs of the index of a level: the range it returns lies within
  the level and brackets the partition point of the key. \<open>live_from c level key\<close> are
  the items of a level that are not deleted and whose key is at least \<open>key\<close>.
\<close>

definition search_ok :: "('v, 'b) params \<Rightarrow> 'b Item list \<Rightarrow> nat \<Rightarrow> bool" where
  "search_ok c level key =
     (case search c level key of
        (lo, hi) \<Rightarrow> lo \<le> std_lower_bound level key \<and> std_lower_bound level key \<le> hi
                      \<and> hi \<le> length level)"

definition live_from :: "('v, 'b) params \<Rightarrow> 'b Item list \<Rightarrow> nat \<Rightarrow> 'b Item list" where
  "live_from c level key = filter (\<lambda>e. \<not> deleted c e \<and> key \<le> first e) level"

lemma takeWhile_take_drop:
  assumes "lo \<le> length (takeWhile P xs)" and "length (takeWhile P xs) \<le> hi"
  shows "lo + length (takeWhile P (take (hi - lo) (drop lo xs))) = length (takeWhile P xs)"
  using assms
proof (induction xs arbitrary: lo hi)
  case Nil
  then show ?case by simp
next
  case (Cons x xs)
  show ?case
  proof (cases "P x")
    case False
    then show ?thesis using Cons.prems by (cases hi) simp_all
  next
    case True
    note px = this
    show ?thesis
    proof (cases lo)
      case 0
      then obtain h where h: "hi = Suc h" using Cons.prems px by (cases hi) auto
      have "0 + length (takeWhile P (take (h - 0) (drop 0 xs))) = length (takeWhile P xs)"
        using Cons.prems px h by (intro Cons.IH) simp_all
      then show ?thesis using 0 h px by simp
    next
      case (Suc l)
      then obtain h where h: "hi = Suc h" using Cons.prems px by (cases hi) auto
      have "l + length (takeWhile P (take (h - l) (drop l xs))) = length (takeWhile P xs)"
        using Cons.prems px h Suc by (intro Cons.IH) simp_all
      then show ?thesis using Suc h px by simp
    qed
  qed
qed

lemma bounded_lower_bound_ok:
  "search_ok c level key \<Longrightarrow> search c level key = (lo, hi) \<Longrightarrow>
   bounded_lower_bound level lo hi key = std_lower_bound level key"
  unfolding bounded_lower_bound_def std_lower_bound_def search_ok_def
  by (simp add: takeWhile_take_drop)

lemma live_from_sorted:
  assumes "strictly_sorted level"
  shows "live_from c level key
           = filter (\<lambda>e. \<not> deleted c e) (drop (std_lower_bound level key) level)"
  using assms
proof (induction level)
  case Nil
  then show ?case by (simp add: live_from_def std_lower_bound_def)
next
  case (Cons x xs)
  show ?case
  proof (cases "first x < key")
    case True
    then show ?thesis using Cons by (simp add: live_from_def std_lower_bound_def)
  next
    case False
    then have "\<forall>y\<in>set xs. key \<le> first y" using Cons.prems by auto
    then have "filter (\<lambda>e. \<not> deleted c e \<and> key \<le> first e) xs = filter (\<lambda>e. \<not> deleted c e) xs"
      by (intro filter_cong) auto
    then show ?thesis using False by (simp add: live_from_def std_lower_bound_def)
  qed
qed

lemma filter_not_takeWhile:
  "filter (\<lambda>e. \<not> P e) xs =
     (if length (takeWhile P xs) < length xs
      then xs ! length (takeWhile P xs) # filter (\<lambda>e. \<not> P e) (drop (Suc (length (takeWhile P xs))) xs)
      else [])"
  by (induction xs) auto

lemma lower_bound_in_level_sorted:
  assumes "strictly_sorted level" and "indexed \<Longrightarrow> level \<noteq> [] \<Longrightarrow> search_ok c level key"
  shows "lower_bound_in_level c indexed level key lo
           = (case live_from c level key of
                [] \<Rightarrow> lo
              | e # es \<Rightarrow> (case lo of None \<Rightarrow> Some e
                           | Some l \<Rightarrow> if first e < first l then Some e else lo))"
proof (cases "level = []")
  case True
  then show ?thesis by (simp add: lower_bound_in_level_def live_from_def)
next
  case False
  let ?p = "std_lower_bound level key"
  let ?d = "drop ?p level"
  let ?n = "length (takeWhile (deleted c) ?d)"
  have it0: "(if indexed
              then (let (l, h) = search c level key in bounded_lower_bound level l h key)
              else std_lower_bound level key) = ?p"
    using assms(2) False by (auto simp: bounded_lower_bound_ok split: prod.splits)
  have lf: "live_from c level key = filter (\<lambda>e. \<not> deleted c e) ?d"
    by (rule live_from_sorted[OF assms(1)])
  have ple: "?p \<le> length level" by (rule std_lower_bound_le)
  show ?thesis
  proof (cases "?n < length ?d")
    case True
    then have idx: "?p + ?n < length level" by simp
    have hd: "?d ! ?n = level ! (?p + ?n)" using idx by simp
    have live: "live_from c level key
                  = level ! (?p + ?n) # filter (\<lambda>e. \<not> deleted c e) (drop (Suc ?n) ?d)"
      using True hd by (subst lf, subst filter_not_takeWhile) simp
    have "level ! (?p + ?n) \<in> set (live_from c level key)" using live by simp
    then have ge: "key \<le> first (level ! (?p + ?n))" by (simp add: live_from_def)
    show ?thesis
      using False idx ge
      by (simp add: lower_bound_in_level_def it0 Let_def live split: option.splits)
  next
    case False
    then have nidx: "\<not> ?p + ?n < length level" by simp
    have live: "live_from c level key = []"
      using False by (subst lf, subst filter_not_takeWhile) simp
    show ?thesis
      using \<open>level \<noteq> []\<close> nidx
      by (simp add: lower_bound_in_level_def it0 Let_def live)
  qed
qed

definition least_live :: "'b Item option \<Rightarrow> 'b Item set \<Rightarrow> bool" where
  "least_live lo C =
     (case lo of None \<Rightarrow> C = {} | Some e \<Rightarrow> e \<in> C \<and> (\<forall>e'\<in>C. first e \<le> first e'))"

lemma strictly_sorted_filter: "strictly_sorted xs \<Longrightarrow> strictly_sorted (filter P xs)"
  by (induction xs) auto

lemma strictly_sorted_hd_least:
  "strictly_sorted (e # es) \<Longrightarrow> e' \<in> set (e # es) \<Longrightarrow> first e \<le> first e'"
  by auto

lemma lower_bound_in_level_least:
  assumes "strictly_sorted level" and "indexed \<Longrightarrow> level \<noteq> [] \<Longrightarrow> search_ok c level key"
    and "least_live lo C"
  shows "least_live (lower_bound_in_level c indexed level key lo) (C \<union> set (live_from c level key))"
proof (cases "live_from c level key")
  case Nil
  then show ?thesis
    using assms(3) by (simp add: lower_bound_in_level_sorted[OF assms(1,2)])
next
  case (Cons e es)
  have "strictly_sorted (live_from c level key)"
    unfolding live_from_def by (rule strictly_sorted_filter[OF assms(1)])
  then have least: "\<And>e'. e' \<in> set (live_from c level key) \<Longrightarrow> first e \<le> first e'"
    using Cons strictly_sorted_hd_least by metis
  have mem: "e \<in> set (live_from c level key)" using Cons by simp
  show ?thesis
  proof (cases lo)
    case None
    then have "C = {}" using assms(3) by (simp add: least_live_def)
    then show ?thesis
      using None Cons least mem
      by (simp add: lower_bound_in_level_sorted[OF assms(1,2)] least_live_def)
  next
    case (Some l)
    then have l: "l \<in> C" "\<And>e'. e' \<in> C \<Longrightarrow> first l \<le> first e'"
      using assms(3) by (simp_all add: least_live_def)
    show ?thesis
    proof (cases "first e < first l")
      case True
      then have "lower_bound_in_level c indexed level key lo = Some e"
        using Some Cons by (simp add: lower_bound_in_level_sorted[OF assms(1,2)])
      moreover have "\<forall>e'\<in>C \<union> set (live_from c level key). first e \<le> first e'"
        using True l(2) least by (auto intro: less_imp_le order_trans)
      ultimately show ?thesis using mem by (simp add: least_live_def)
    next
      case False
      then have "lower_bound_in_level c indexed level key lo = Some l"
        using Some Cons by (simp add: lower_bound_in_level_sorted[OF assms(1,2)])
      moreover have "\<forall>e'\<in>C \<union> set (live_from c level key). first l \<le> first e'"
      proof
        fix e' assume "e' \<in> C \<union> set (live_from c level key)"
        then consider "e' \<in> C" | "e' \<in> set (live_from c level key)" by auto
        then show "first l \<le> first e'"
        proof cases
          case 1
          then show ?thesis by (rule l(2))
        next
          case 2
          have "first l \<le> first e" using False by simp
          also have "first e \<le> first e'" using 2 by (rule least)
          finally show ?thesis .
        qed
      qed
      ultimately show ?thesis using l(1) by (simp add: least_live_def)
    qed
  qed
qed

lemma lower_bound_loop_least:
  assumes "\<And>l. l \<in> set levels \<Longrightarrow> strictly_sorted (get_level S l)"
    and "\<And>l. l \<in> set levels \<Longrightarrow> indexed \<Longrightarrow> get_level S l \<noteq> [] \<Longrightarrow> search_ok c (get_level S l) key"
    and "least_live lo C"
  shows "least_live (lower_bound_loop c S indexed key lo levels)
           (C \<union> (\<Union>l\<in>set levels. set (live_from c (get_level S l) key)))"
  using assms
proof (induction levels arbitrary: lo C)
  case Nil
  then show ?case by simp
next
  case (Cons l levels)
  have step: "least_live (lower_bound_in_level c indexed (get_level S l) key lo)
                (C \<union> set (live_from c (get_level S l) key))"
    using Cons.prems by (intro lower_bound_in_level_least) simp_all
  have "least_live (lower_bound_loop c S indexed key
                      (lower_bound_in_level c indexed (get_level S l) key lo) levels)
          ((C \<union> set (live_from c (get_level S l) key))
             \<union> (\<Union>l\<in>set levels. set (live_from c (get_level S l) key)))"
    using Cons.prems(1,2) step by (intro Cons.IH) simp_all
  then show ?case by (simp add: Un_assoc)
qed

definition live_entries :: "('v, 'b) params \<Rightarrow> 'b index \<Rightarrow> nat \<Rightarrow> 'b Item set" where
  "live_entries c S key =
     (\<Union>l\<in>{min_level..<used_levels S}. set (live_from c (get_level S l) key))"

lemma lower_bound_least:
  assumes "\<And>l. min_level \<le> l \<Longrightarrow> l < used_levels S \<Longrightarrow> strictly_sorted (get_level S l)"
    and "\<And>l. MinIndexedLevel c \<le> l \<Longrightarrow> min_level \<le> l \<Longrightarrow> l < used_levels S \<Longrightarrow>
            get_level S l \<noteq> [] \<Longrightarrow> search_ok c (get_level S l) key"
  shows "least_live (lower_bound c S key) (live_entries c S key)"
proof -
  let ?stop = "min (MinIndexedLevel c) (used_levels S)"
  let ?A = "[min_level..<?stop]"
  let ?B = "[max min_level ?stop..<used_levels S]"
  let ?lo = "lower_bound_loop c S False key None ?A"
  have a: "least_live ?lo ({} \<union> (\<Union>l\<in>set ?A. set (live_from c (get_level S l) key)))"
    using assms(1) by (intro lower_bound_loop_least) (simp_all add: least_live_def)
  have b: "least_live (lower_bound_loop c S True key ?lo ?B)
             (({} \<union> (\<Union>l\<in>set ?A. set (live_from c (get_level S l) key)))
                \<union> (\<Union>l\<in>set ?B. set (live_from c (get_level S l) key)))"
  proof (rule lower_bound_loop_least)
    fix l assume l: "l \<in> set ?B"
    then show "strictly_sorted (get_level S l)" using assms(1) by simp
    assume "get_level S l \<noteq> []"
    moreover have "MinIndexedLevel c \<le> l" "min_level \<le> l" "l < used_levels S"
      using l by (auto simp: min_def split: if_splits)
    ultimately show "search_ok c (get_level S l) key" using assms(2)[of l] by simp
  qed (rule a)
  have "set ?A \<union> set ?B = {min_level..<used_levels S}" by auto
  then have "({} \<union> (\<Union>l\<in>set ?A. set (live_from c (get_level S l) key)))
                \<union> (\<Union>l\<in>set ?B. set (live_from c (get_level S l) key))
             = live_entries c S key"
    unfolding live_entries_def by (metis UN_Un Un_empty_left)
  then show ?thesis using b by (simp add: lower_bound_def Let_def)
qed

lemma live_entries_iff:
  "e \<in> live_entries c S key \<longleftrightarrow>
     (\<exists>l. min_level \<le> l \<and> l < used_levels S \<and> e \<in> set (get_level S l)
          \<and> \<not> deleted c e \<and> key \<le> first e)"
  by (auto simp: live_entries_def live_from_def)

text \<open>
  C4. Every level below \<open>used_levels\<close> is sorted, and the index of every indexed level
  answers the search for \<open>key\<close> with a range that brackets its partition point. Then
  \<open>lower_bound(key)\<close> returns \<open>end()\<close> exactly when no level holds an item that
  is not deleted and has a key of at least \<open>key\<close>; otherwise it returns such an item
  of some level, and no such item of any level has a smaller key.
\<close>

theorem lower_bound_least_live_key:
  assumes "\<forall>l. min_level \<le> l \<and> l < used_levels S \<longrightarrow> strictly_sorted (get_level S l)"
    and "\<forall>l. MinIndexedLevel c \<le> l \<and> min_level \<le> l \<and> l < used_levels S \<and> get_level S l \<noteq> []
           \<longrightarrow> search_ok c (get_level S l) key"
  shows "case lower_bound c S key of
           None \<Rightarrow>
             (\<forall>l e. min_level \<le> l \<and> l < used_levels S \<and> e \<in> set (get_level S l)
                     \<and> \<not> deleted c e \<longrightarrow> first e < key)
         | Some e \<Rightarrow>
             \<not> deleted c e \<and> key \<le> first e
             \<and> (\<exists>l. min_level \<le> l \<and> l < used_levels S \<and> e \<in> set (get_level S l))
             \<and> (\<forall>l e'. min_level \<le> l \<and> l < used_levels S \<and> e' \<in> set (get_level S l)
                     \<and> \<not> deleted c e' \<and> key \<le> first e' \<longrightarrow> first e \<le> first e')"
proof -
  have ll: "least_live (lower_bound c S key) (live_entries c S key)"
    using assms by (intro lower_bound_least) auto
  show ?thesis
  proof (cases "lower_bound c S key")
    case None
    then have "live_entries c S key = {}" using ll by (simp add: least_live_def)
    then have "\<And>l e. min_level \<le> l \<and> l < used_levels S \<and> e \<in> set (get_level S l)
                     \<and> \<not> deleted c e \<Longrightarrow> first e < key"
      using live_entries_iff[of _ c S key] by (metis empty_iff not_le_imp_less)
    then show ?thesis using None by auto
  next
    case (Some e)
    then have e: "e \<in> live_entries c S key" "\<And>e'. e' \<in> live_entries c S key \<Longrightarrow> first e \<le> first e'"
      using ll by (simp_all add: least_live_def)
    show ?thesis
      using Some e(1) e(2) by (auto simp: live_entries_iff)
  qed
qed

lemma flagged_values_simps [simp]:
  "first (make_item (flagged_values m s) k v) = k"
  "first (make_deleted (flagged_values m s) k) = k"
  "\<not> deleted (flagged_values m s) (make_item (flagged_values m s) k v)"
  "deleted (flagged_values m s) (make_deleted (flagged_values m s) k)"
  "MinIndexedLevel (flagged_values m s) = m"
  "search (flagged_values m s) = s"
  by (simp_all add: flagged_values_def deleted_def)

definition indexed_example_params :: "(nat, nat BaseItemB) params" where
  "indexed_example_params = flagged_values 7 (\<lambda>xs k. (0, length xs))"

theorem lower_bound_least_live_key_witness:
  "lower_bound indexed_example_params
     \<lparr> used_levels = 8,
       data = [[make_deleted indexed_example_params 3, make_item indexed_example_params 9 1],
               [make_item indexed_example_params 4 0, make_item indexed_example_params 12 0],
               []] \<rparr> 2
   = Some (make_item indexed_example_params 4 0)"
proof -
  let ?c = "indexed_example_params"
  let ?S = "\<lparr> used_levels = 8,
       data = [[make_deleted ?c 3, make_item ?c 9 1],
               [make_item ?c 4 0, make_item ?c 12 0], []] \<rparr>"
  have g6: "get_level ?S 6 = [make_deleted ?c 3, make_item ?c 9 1]"
    and g7: "get_level ?S 7 = [make_item ?c 4 0, make_item ?c 12 0]"
    by (simp_all add: get_level_def min_level_def)
  have s6: "strictly_sorted (get_level ?S 6)" and s7: "strictly_sorted (get_level ?S 7)"
    unfolding g6 g7 by (simp_all add: indexed_example_params_def)
  have ok7: "search_ok ?c (get_level ?S 7) 2"
    unfolding g7 by (simp add: indexed_example_params_def search_ok_def std_lower_bound_def)
  have a: "\<forall>l. min_level \<le> l \<and> l < used_levels ?S \<longrightarrow> strictly_sorted (get_level ?S l)"
  proof (intro allI impI)
    fix l assume "min_level \<le> l \<and> l < used_levels ?S"
    then have "l = 6 \<or> l = 7" by (auto simp: min_level_def)
    then show "strictly_sorted (get_level ?S l)" using s6 s7 by blast
  qed
  have b: "\<forall>l. MinIndexedLevel ?c \<le> l \<and> min_level \<le> l \<and> l < used_levels ?S \<and> get_level ?S l \<noteq> []
           \<longrightarrow> search_ok ?c (get_level ?S l) 2"
  proof (intro allI impI)
    fix l assume "MinIndexedLevel ?c \<le> l \<and> min_level \<le> l \<and> l < used_levels ?S \<and> get_level ?S l \<noteq> []"
    then have "l = 7" by (auto simp: indexed_example_params_def)
    then show "search_ok ?c (get_level ?S l) 2" using ok7 by blast
  qed
  have lb: "lower_bound ?c ?S 2 = Some (make_item ?c 4 0)"
    by (simp add: lower_bound_def min_level_def upt_conv_Cons get_level_def lower_bound_in_level_def
        std_lower_bound_def bounded_lower_bound_def Let_def indexed_example_params_def)
  show ?thesis
    using lower_bound_least_live_key[OF a b] lb by simp
qed

section \<open>Traversal\<close>

text \<open>
  A queue with one pair walks along its level: it yields the items in the order of the level,
  and skips the repetitions of a key.
\<close>

lemma queue_top_single [simp]: "queue_top [e] = e"
  by simp

lemma queue_step_single:
  "queue_step [(x # xs, l)] = (if xs \<noteq> [] then [(xs, l)] else [], x)"
  by (simp add: queue_step_def)

lemma skip_equal_Nil [simp]: "skip_equal key [] = []"
  by (subst skip_equal.simps) simp

lemma skip_equal_replicate:
  "skip_equal (first j) [(replicate (Suc m) j, l)] = []"
proof (induction m)
  case 0
  show ?case by (subst skip_equal.simps) (simp add: queue_step_single)
next
  case (Suc m)
  have "skip_equal (first j) [(j # replicate (Suc m) j, l)]
          = skip_equal (first j) [(replicate (Suc m) j, l)]"
    by (subst skip_equal.simps) (simp add: queue_step_single)
  then show ?case using Suc by simp
qed

lemma skip_equal_other:
  "xs \<noteq> [] \<Longrightarrow> first (hd xs) \<noteq> key \<Longrightarrow> skip_equal key [(xs, l)] = [(xs, l)]"
  by (subst skip_equal.simps) simp

lemma advance_loop_Nil [simp]: "advance_loop c [] = None"
  by (subst advance_loop.simps) simp

lemma traverse_from_end [simp]: "it iter = None \<Longrightarrow> traverse_from c S iter = []"
  by (subst traverse_from.simps) simp

lemma traverse_from_initialized:
  "it iter = Some x \<Longrightarrow> initialized iter \<Longrightarrow>
   traverse_from c S iter = x # traverse_from c S (advance c iter)"
  by (subst traverse_from.simps) (simp add: lazy_initialize_initialized)

lemma traverse_from_last:
  assumes "it iter = Some x" and "initialized iter" and "queue iter = []"
  shows "traverse_from c S iter = [x]"
  using assms by (simp add: traverse_from_initialized advance_def iterator_at_def)

lemma traverse_from_single_level:
  assumes "\<not> deleted c j" and "strictly_sorted ys" and "\<forall>y\<in>set ys. \<not> deleted c y"
    and "ys \<noteq> [] \<longrightarrow> first (last ys) \<noteq> first j"
    and "it iter = Some x" and "initialized iter"
    and "queue iter = [(ys @ replicate (Suc n) j, l)]"
  shows "traverse_from c S iter = x # ys @ [j]"
  using assms(2-)
proof (induction ys arbitrary: iter x)
  case Nil
  have "advance_loop c [(j # replicate n j, l)] = Some ([], j)"
  proof (cases n)
    case 0
    then show ?thesis by (subst advance_loop.simps) (simp add: queue_step_single)
  next
    case (Suc m)
    then show ?thesis
      using skip_equal_replicate[of j m l]
      by (subst advance_loop.simps) (simp add: queue_step_single)
  qed
  then have a: "advance c iter = iter\<lparr> it := Some j, queue := [] \<rparr>"
    using Nil assms(1) by (simp add: advance_def)
  have "traverse_from c S (iter\<lparr> it := Some j, queue := [] \<rparr>) = [j]"
    using Nil by (intro traverse_from_last) simp_all
  then show ?case using Nil a by (simp add: traverse_from_initialized)
next
  case (Cons y ys)
  let ?rest = "ys @ replicate (Suc n) j"
  have ne: "?rest \<noteq> []" by simp
  have k: "first (hd ?rest) \<noteq> first y"
  proof (cases ys)
    case Nil
    then show ?thesis using Cons.prems(3) by simp
  next
    case (Cons z zs)
    then show ?thesis using Cons.prems(1) by auto
  qed
  have "advance_loop c [(y # ?rest, l)] = Some ([(?rest, l)], y)"
    using Cons.prems(2) skip_equal_other[OF ne k, of l]
    by (subst advance_loop.simps) (simp add: queue_step_single del: replicate.simps)
  then have a: "advance c iter = iter\<lparr> it := Some y, queue := [(?rest, l)] \<rparr>"
    using Cons.prems by (simp add: advance_def)
  have "traverse_from c S (iter\<lparr> it := Some y, queue := [(?rest, l)] \<rparr>) = y # ys @ [j]"
  proof (rule Cons.IH)
    show "strictly_sorted ys" using Cons.prems(1) by simp
    show "\<forall>y\<in>set ys. \<not> deleted c y" using Cons.prems(2) by simp
    show "ys \<noteq> [] \<longrightarrow> first (last ys) \<noteq> first j" using Cons.prems(3) by auto
  qed (use Cons.prems in simp_all)
  then show ?case using Cons.prems a by (simp add: traverse_from_initialized)
qed

lemma std_upper_bound_head:
  assumes "strictly_sorted (x # ys @ zs)" and "zs \<noteq> []"
  shows "std_upper_bound (x # ys @ zs) (first x) = 1"
proof (cases "ys @ zs")
  case Nil
  then show ?thesis using assms by simp
next
  case (Cons w ws)
  then have "first x < first w" using assms(1) by (metis list.set_intros(1) strictly_sorted_Cons)
  then show ?thesis using Cons by (simp add: std_upper_bound_def)
qed

lemma std_upper_bound_head':
  assumes "\<forall>y\<in>set ys. first x < first y" and "first x < first j \<or> ys \<noteq> []"
  shows "std_upper_bound (x # ys @ replicate (Suc n) j) (first x) = 1"
proof (cases ys)
  case Nil
  then show ?thesis using assms by (simp add: std_upper_bound_def)
next
  case (Cons w ws)
  then show ?thesis using assms by (simp add: std_upper_bound_def)
qed

lemma traverse_level_9:
  assumes "\<not> deleted c j" and "strictly_sorted (x # ys)" and "\<forall>y\<in>set (x # ys). \<not> deleted c y"
    and "first (last (x # ys)) \<noteq> first j" and "ys \<noteq> []" and "10 \<le> MinIndexedLevel c"
  shows "traverse c (st 10 m [] [] [] (x # ys @ replicate (Suc n) j)) = x # ys @ [j]"
proof -
  let ?L = "x # ys @ replicate (Suc n) j"
  let ?S = "st 10 m [] [] [] ?L"
  have lv: "get_level ?S 6 = []" "get_level ?S 7 = []" "get_level ?S 8 = []" "get_level ?S 9 = ?L"
    by (simp_all add: st_def get_level_def min_level_def)
  have ul: "used_levels ?S = 10" by (simp add: st_def)
  have mil: "min (MinIndexedLevel c) 10 = 10" "\<not> MinIndexedLevel c \<le> 9"
    "\<not> MinIndexedLevel c \<le> 6" "\<not> MinIndexedLevel c \<le> 7" "\<not> MinIndexedLevel c \<le> 8"
    using assms(6) by simp_all
  have nd: "\<not> deleted c x" using assms(3) by simp
  have b: "begin_it c ?S = Some x"
    unfolding begin_it_def lower_bound_def ul
    by (simp add: mil min_level_def upt_6_10 lv lower_bound_in_level_def std_lower_bound_def nd
        del: replicate.simps)
  have ub: "std_upper_bound ?L (first x) = 1"
    using assms(2,5) by (intro std_upper_bound_head') simp_all
  have li: "lazy_initialize_queue c ?S x (iterator_at (Some x))
              = \<lparr> it = Some x, initialized = True, queue = [(ys @ replicate (Suc n) j, 9)] \<rparr>"
    unfolding lazy_initialize_queue_def ul
    by (simp add: iterator_at_def min_level_def upt_6_10 lv mil ub del: replicate.simps)
  have "traverse_from c ?S \<lparr> it = Some x, initialized = True, queue = [(ys @ replicate (Suc n) j, 9)] \<rparr>
          = x # ys @ [j]"
  proof (rule traverse_from_single_level[OF assms(1)])
    show "strictly_sorted ys" using assms(2) by simp
    show "\<forall>y\<in>set ys. \<not> deleted c y" using assms(3) by simp
    show "ys \<noteq> [] \<longrightarrow> first (last ys) \<noteq> first j" using assms(4,5) by simp
  qed simp_all
  moreover have "traverse_from c ?S (iterator_at (Some x))
          = x # traverse_from c ?S
                  (advance c \<lparr> it = Some x, initialized = True, queue = [(ys @ replicate (Suc n) j, 9)] \<rparr>)"
    by (subst traverse_from.simps)
       (simp add: iterator_at_def li[unfolded iterator_at_def] del: replicate.simps)
  ultimately show ?thesis
    by (simp add: traverse_def b traverse_from_initialized del: replicate.simps)
qed

text \<open>
  Four rounds insert the keys 0 to 127, four more the keys 128 to 255. The last insertion
  merges into level 9, which holds the keys 0 to 127.
\<close>

definition two_ranges :: "nat operation list" where
  "two_ranges = insert_round 0 1 @ insert_round 0 2 @ insert_round 0 3 @ insert_round 0 4
                  @ insert_round 128 5 @ insert_round 128 6 @ insert_round 128 7 @ insert_round 128 8"

lemma key_run_mem: "key_run off es \<Longrightarrow> x \<in> set es \<Longrightarrow> off \<le> first x \<and> first x < off + 128"
proof -
  assume "key_run off es" and "x \<in> set es"
  then have "first x \<in> set [off..<off + 128]" unfolding key_run_def by (metis image_eqI set_map)
  then show ?thesis by simp
qed

lemma run_two_ranges:
  "run example_params junk empty_index two_ranges
     = Inr (st 10 8 [] [] []
              (map (item_of example_params) (insert_round 128 8) @ map junk [512..<640]))"
proof -
  let ?r = "\<lambda>off v. map (item_of example_params) (insert_round off v :: nat operation list)"
  have a: "insert_items example_params junk empty_index (?r 0 1 @ ?r 0 2 @ ?r 0 3 @ ?r 0 4)
             = Inr (st 10 8 [] [] [] (?r 0 4))"
    by (rule four_rounds[OF key_run_insert_round key_run_insert_round key_run_insert_round
          key_run_insert_round])
  have m: "merge example_params True (?r 128 8) (?r 0 4) = ?r 0 4 @ ?r 128 8"
  proof (rule merge_all_greater, intro ballI)
    fix x y assume "x \<in> set (?r 128 8)" and "y \<in> set (?r 0 4)"
    then show "first y < first x"
      using key_run_mem[OF key_run_insert_round, of x 128 8] key_run_mem[OF key_run_insert_round, of y 0 4]
      by simp
  qed
  have len: "length (?r 0 4) = 128" "length (?r 128 8) = 128"
    by (rule key_run_length[OF key_run_insert_round])+
  have lm: "length (merge example_params True (?r 128 8) (?r 0 4)) = 256"
    using len by (simp add: m)
  have b: "insert_items example_params junk (st 10 8 [] [] [] (?r 0 4))
              (?r 128 5 @ ?r 128 6 @ ?r 128 7 @ ?r 128 8)
             = Inr (st 10 8 [] [] []
                    (resize junk
                       (length (merge example_params True (?r 128 8) (?r 0 4)))
                       (?r 128 8 @ drop 128 (fresh junk 384 512))))"
    by (rule four_more_rounds[OF key_run_insert_round key_run_insert_round key_run_insert_round
          key_run_insert_round len(1)]) (simp add: lm)
  have d: "drop 128 (fresh junk 384 512) = map junk [512..<896]"
    by (simp add: fresh_def drop_map drop_upt)
  have t: "take 128 (map junk [512..<896]) = map junk [512..<640]"
    by (simp add: take_map take_upt)
  have r: "resize junk 256 (?r 128 8 @ drop 128 (fresh junk 384 512)) = ?r 128 8 @ map junk [512..<640]"
    unfolding d resize_def using len(2) by (simp add: t del: upt_Suc)
  have b': "insert_items example_params junk (st 10 8 [] [] [] (?r 0 4))
              (?r 128 5 @ ?r 128 6 @ ?r 128 7 @ ?r 128 8)
             = Inr (st 10 8 [] [] [] (?r 128 8 @ map junk [512..<640]))"
    using b unfolding lm r .
  have "insert_items example_params junk empty_index
          ((?r 0 1 @ ?r 0 2 @ ?r 0 3 @ ?r 0 4) @ (?r 128 5 @ ?r 128 6 @ ?r 128 7 @ ?r 128 8))
          = Inr (st 10 8 [] [] [] (?r 128 8 @ map junk [512..<640]))"
    by (simp only: insert_items_append[of _ _ _ "?r 0 1 @ ?r 0 2 @ ?r 0 3 @ ?r 0 4"] a b' sum.case)
  then show ?thesis
    unfolding two_ranges_def run_insert_items map_append append_assoc .
qed

lemma items_insert_round_128:
  "map (item_of example_params) (insert_round 128 (8::nat))
     = make_item example_params 128 8 # map (\<lambda>k. make_item example_params k 8) [129..<256]"
proof -
  have "[128..<256] = 128 # [129..<256]" by (simp add: upt_conv_Cons)
  then show ?thesis by (simp add: insert_round_def comp_def del: upt_Suc upt_rec_numeral)
qed

text \<open>
  C3 at a failing input. After \<open>two_ranges\<close> the merge of 256 items is in \<open>tmp_a\<close>,
  and level 9 is \<open>tmp_b\<close> resized to 256 items: the 128 items of the keys 128 to 255 that
  the merge before wrote there, followed by 128 items that were never written. Iteration
  yields them after key 255; where they hold key 200, the keys come as 128, ..., 255, 200,
  not in ascending order.
\<close>

theorem iteration_reaches_unwritten_items:
  "run example_params junk empty_index two_ranges
     = Inr (st 10 8 [] [] []
              (map (item_of example_params) (insert_round 128 8) @ map junk [512..<640]))
   \<and> map first (traverse example_params
        (st 10 8 [] [] []
           (map (item_of example_params) (insert_round 128 8) @ map example_junk [512..<640])))
     = [128..<256] @ [200]"
proof -
  let ?x = "make_item example_params 128 8"
  let ?ys = "map (\<lambda>k. make_item example_params k 8) [129..<256]"
  let ?j = "make_item example_params 200 0"
  have j: "map example_junk [512..<640] = replicate (Suc 127) ?j"
  proof -
    have e: "example_junk = (\<lambda>i. ?j)" by (rule ext) (simp add: example_junk_def)
    have "map example_junk [512..<640] = replicate (length [512..<640::nat]) ?j"
      unfolding e by (rule map_replicate_const)
    then show ?thesis by (simp only: length_upt) simp
  qed
  have f: "map first ?ys = [129..<256]"
    by (simp add: comp_def example_params_def del: upt_Suc upt_rec_numeral)
  have ne: "?ys \<noteq> []" by simp
  have la: "first (last (?x # ?ys)) = 255"
    using ne by (simp add: last_map example_params_def del: upt_Suc upt_rec_numeral)
  have ss: "strictly_sorted (?x # ?ys)"
    unfolding strictly_sorted_def list.map f by (simp add: example_params_def del: upt_Suc upt_rec_numeral)
  have t: "traverse example_params (st 10 8 [] [] [] (?x # ?ys @ replicate (Suc 127) ?j))
             = ?x # ?ys @ [?j]"
  proof (rule traverse_level_9[OF _ ss _ _ ne])
    show "\<not> deleted example_params ?j" by (simp add: example_params_def)
    show "\<forall>y\<in>set (?x # ?ys). \<not> deleted example_params y" by (auto simp: example_params_def)
    show "first (last (?x # ?ys)) \<noteq> first ?j" unfolding la by (simp add: example_params_def)
    show "10 \<le> MinIndexedLevel example_params" by simp
  qed
  have k: "[128..<256] = 128 # [129..<256]" by (simp add: upt_conv_Cons)
  have "map first (?x # ?ys @ [?j]) = [128..<256] @ [200]"
    unfolding k using f by (simp add: example_params_def del: upt_Suc upt_rec_numeral)
  then show ?thesis
    unfolding items_insert_round_128 j using run_two_ranges[of junk, unfolded items_insert_round_128] t
    by (simp del: upt_Suc upt_rec_numeral replicate.simps)
qed

section \<open>Merge cascades\<close>

text \<open>
  The items of the levels that \<open>find\<close> and the iterators look at, from the buffer down,
  and the number of deleted items among them.
\<close>

definition entries :: "'b index \<Rightarrow> 'b Item list" where
  "entries S = concat (map (get_level S) [min_level..<used_levels S])"















lemma length_foldl_merge:
  "length (foldl (merge c s) xs ls) \<le> length xs + length (concat ls)"
proof (induction ls arbitrary: xs)
  case Nil
  then show ?case by simp
next
  case (Cons l ls)
  show ?case
    using Cons.IH[of "merge c s xs l"] length_merge[of c s xs l] by simp
qed







subsection \<open>What \<open>find\<close> returns on sorted levels\<close>





subsection \<open>An iteration over two levels\<close>






subsection \<open>A cascade that changes what an iteration yields\<close>


















subsection \<open>What an iteration yields on sorted levels\<close>










































text \<open>
  The keys of the container that \<open>find\<close> reports present.
\<close>

definition found_keys :: "('v, 'b) params \<Rightarrow> 'b index \<Rightarrow> nat set" where
  "found_keys c S = {k \<in> first ` set (entries S). find_key c S k \<noteq> None}"

lemma finite_found_keys [simp]: "finite (found_keys c S)"
  by (simp add: found_keys_def)






section \<open>Pointer values\<close>












end
